theory Spec2Isabelle
  imports Main "HOL-Library.Sublist" "HOL-Library.Multiset" "HOL-Library.Word"
begin

section \<open>Go strings as byte lists\<close>

text \<open>
  A Go \<^verbatim>\<open>string\<close> is a sequence of bytes and \<^verbatim>\<open>len\<close>, indexing and slicing count
  bytes, so a string is modelled as \<^typ>\<open>string\<close> (a list of 8-bit characters).
  The functions of package \<^verbatim>\<open>strings\<close> that the handlers and the provider call are
  written out below under their Go names.
\<close>

text \<open>\<^verbatim>\<open>strings.Split(s, "\n")\<close>: never empty, \<^verbatim>\<open>Split("", "\n") = [""]\<close>.\<close>

fun Split_nl :: "string \<Rightarrow> string list" where
  "Split_nl [] = [[]]"
| "Split_nl (c # cs) =
     (if c = CHR 0x0A then [] # Split_nl cs
      else (case Split_nl cs of [] \<Rightarrow> [[c]] | l # ls \<Rightarrow> (c # l) # ls))"

text \<open>\<^verbatim>\<open>strings.Join(elems, "\n")\<close>.\<close>

fun Join_nl :: "string list \<Rightarrow> string" where
  "Join_nl [] = []"
| "Join_nl [l] = l"
| "Join_nl (l # m # ls) = l @ CHR 0x0A # Join_nl (m # ls)"

text \<open>\<^verbatim>\<open>strings.HasPrefix\<close>, \<^verbatim>\<open>strings.HasSuffix\<close>, \<^verbatim>\<open>strings.Index\<close>, \<^verbatim>\<open>strings.Contains\<close>.\<close>

definition HasPrefix :: "string \<Rightarrow> string \<Rightarrow> bool" where
  "HasPrefix s p = prefix p s"

definition HasSuffix :: "string \<Rightarrow> string \<Rightarrow> bool" where
  "HasSuffix s p = suffix p s"

fun Index :: "string \<Rightarrow> string \<Rightarrow> nat option" where
  "Index [] t = (if t = [] then Some 0 else None)"
| "Index (c # cs) t =
     (if prefix t (c # cs) then Some 0 else map_option Suc (Index cs t))"

definition Contains :: "string \<Rightarrow> string \<Rightarrow> bool" where
  "Contains s t = (Index s t \<noteq> None)"

text \<open>
  \<^verbatim>\<open>strings.TrimLeft\<close>, \<^verbatim>\<open>strings.TrimRight\<close> and \<^verbatim>\<open>strings.Trim\<close> with a cutset.
  Every cutset in the source is ASCII, where Go works byte by byte.
\<close>

definition TrimLeft :: "string \<Rightarrow> string \<Rightarrow> string" where
  "TrimLeft s cutset = dropWhile (\<lambda>c. c \<in> set cutset) s"

definition TrimRight :: "string \<Rightarrow> string \<Rightarrow> string" where
  "TrimRight s cutset = rev (dropWhile (\<lambda>c. c \<in> set cutset) (rev s))"

definition Trim :: "string \<Rightarrow> string \<Rightarrow> string" where
  "Trim s cutset = TrimRight (TrimLeft s cutset) cutset"

text \<open>
  \<^verbatim>\<open>strings.TrimPrefix\<close> and \<^verbatim>\<open>strings.TrimSuffix\<close>.
\<close>

definition TrimPrefix :: "string \<Rightarrow> string \<Rightarrow> string" where
  "TrimPrefix s p = (if prefix p s then drop (length p) s else s)"

text \<open>
  \<^verbatim>\<open>strings.TrimSpace\<close> removes leading and trailing white space as Unicode defines
  it. Over UTF-8 bytes these are the six ASCII bytes tab, line feed, vertical tab,
  form feed, carriage return and space, and the encodings of U+0085, U+00A0,
  U+1680, U+2000 to U+200A, U+2028, U+2029, U+202F, U+205F and U+3000. Each of the
  multi-byte encodings starts with a byte that is never a continuation byte, so
  Go's rune decoding finds such a white space exactly where its bytes occur.
\<close>

definition space_seqs :: "string list" where
  "space_seqs =
     [[CHR 0x09], [CHR 0x0A], [CHR 0x0B], [CHR 0x0C], [CHR 0x0D], [CHR 0x20],
      [CHR 0xC2, CHR 0x85], [CHR 0xC2, CHR 0xA0],
      [CHR 0xE1, CHR 0x9A, CHR 0x80],
      [CHR 0xE2, CHR 0x80, CHR 0x80], [CHR 0xE2, CHR 0x80, CHR 0x81],
      [CHR 0xE2, CHR 0x80, CHR 0x82], [CHR 0xE2, CHR 0x80, CHR 0x83],
      [CHR 0xE2, CHR 0x80, CHR 0x84], [CHR 0xE2, CHR 0x80, CHR 0x85],
      [CHR 0xE2, CHR 0x80, CHR 0x86], [CHR 0xE2, CHR 0x80, CHR 0x87],
      [CHR 0xE2, CHR 0x80, CHR 0x88], [CHR 0xE2, CHR 0x80, CHR 0x89],
      [CHR 0xE2, CHR 0x80, CHR 0x8A],
      [CHR 0xE2, CHR 0x80, CHR 0xA8], [CHR 0xE2, CHR 0x80, CHR 0xA9],
      [CHR 0xE2, CHR 0x80, CHR 0xAF], [CHR 0xE2, CHR 0x81, CHR 0x9F],
      [CHR 0xE3, CHR 0x80, CHR 0x80]]"

text \<open>The length of the white space a string starts with (0 when it starts with none).\<close>

definition space_prefix_len :: "string \<Rightarrow> nat" where
  "space_prefix_len s =
     (case filter (\<lambda>q. prefix q s) space_seqs of [] \<Rightarrow> 0 | q # _ \<Rightarrow> length q)"

definition space_suffix_len :: "string \<Rightarrow> nat" where
  "space_suffix_len s =
     (case filter (\<lambda>q. suffix q s) space_seqs of [] \<Rightarrow> 0 | q # _ \<Rightarrow> length q)"

lemma space_prefix_len_le: "space_prefix_len s \<le> length s"
proof (cases "filter (\<lambda>q. prefix q s) space_seqs")
  case Nil
  then show ?thesis by (simp add: space_prefix_len_def)
next
  case (Cons q qs)
  then have "q \<in> set (filter (\<lambda>q. prefix q s) space_seqs)" by simp
  then have "prefix q s" by simp
  then have "length q \<le> length s" by (rule prefix_length_le)
  with Cons show ?thesis by (simp add: space_prefix_len_def)
qed

lemma space_suffix_len_le: "space_suffix_len s \<le> length s"
proof (cases "filter (\<lambda>q. suffix q s) space_seqs")
  case Nil
  then show ?thesis by (simp add: space_suffix_len_def)
next
  case (Cons q qs)
  then have "q \<in> set (filter (\<lambda>q. suffix q s) space_seqs)" by simp
  then have "suffix q s" by simp
  then have "length q \<le> length s" by (rule suffix_length_le)
  with Cons show ?thesis by (simp add: space_suffix_len_def)
qed

function TrimLeftSpace :: "string \<Rightarrow> string" where
  "TrimLeftSpace s =
     (if space_prefix_len s = 0 then s else TrimLeftSpace (drop (space_prefix_len s) s))"
  by pat_completeness auto
termination
proof (relation "measure length")
  show "wf (measure length)" by simp
next
  fix s :: string
  assume "space_prefix_len s \<noteq> 0"
  moreover have "space_prefix_len s \<le> length s" by (rule space_prefix_len_le)
  ultimately show "(drop (space_prefix_len s) s, s) \<in> measure length" by simp
qed

function TrimRightSpace :: "string \<Rightarrow> string" where
  "TrimRightSpace s =
     (if space_suffix_len s = 0 then s
      else TrimRightSpace (take (length s - space_suffix_len s) s))"
  by pat_completeness auto
termination
proof (relation "measure length")
  show "wf (measure length)" by simp
next
  fix s :: string
  assume "space_suffix_len s \<noteq> 0"
  moreover have "space_suffix_len s \<le> length s" by (rule space_suffix_len_le)
  ultimately show "(take (length s - space_suffix_len s) s, s) \<in> measure length" by simp
qed

declare TrimLeftSpace.simps [simp del]
declare TrimRightSpace.simps [simp del]

definition TrimSpace :: "string \<Rightarrow> string" where
  "TrimSpace s = TrimRightSpace (TrimLeftSpace s)"

section \<open>The text-window extractor (package util)\<close>

record ContentParts =
  ContentBefore :: string
  ContentAfter :: string
  LastCharacter :: string
  LastLine :: string
  ContentImmediatelyAfter :: string

text \<open>
  A Go run-time panic. \<^verbatim>\<open>GetContent\<close> can raise one: the slice expression
  \<^verbatim>\<open>lines[line][column:]\<close> is evaluated whenever \<^verbatim>\<open>column < len(lines[line])\<close>,
  which a negative column satisfies.
\<close>

datatype panic = SliceBoundsOutOfRange

text \<open>
  The conversion \<^verbatim>\<open>string(b)\<close> of a byte: the UTF-8 encoding of the code point
  with the number of the byte, which is the byte itself below 128 and two bytes
  from 128 on.
\<close>

definition byte_string :: "char \<Rightarrow> string" where
  "byte_string b =
     (let n = (of_char b :: nat)
      in if n < 128 then [b] else [char_of (192 + n div 64), char_of (128 + n mod 64)])"

text \<open>
  \<^verbatim>\<open>GetContent(contents, line, column)\<close>. Go's \<^verbatim>\<open>int\<close> is modelled as \<^typ>\<open>int\<close>:
  the only arithmetic is on indices below the length of the text.
\<close>

definition GetContent :: "string \<Rightarrow> int \<Rightarrow> int \<Rightarrow> panic + ContentParts" where
  "GetContent contents line column =
     (let lines = Split_nl contents;
          line = (if line < 0 then 0 else line);
          line = (if line \<ge> int (length lines) then int (length lines) - 1 else line);
          l = nat line;
          beforeLines = take (l + 1) lines;
          beforeLines =
            (if column \<ge> 0 \<and> column < int (length (beforeLines ! l))
             then beforeLines[l := take (nat column) (beforeLines ! l)]
             else beforeLines);
          lastLine = beforeLines ! (length beforeLines - 1);
          contentBefore = Join_nl beforeLines;
          contentAfter =
            (if l + 1 < length lines then Join_nl (drop (l + 1) lines) else []);
          lastCharacter =
            (if length contentBefore > 0
             then byte_string (contentBefore ! (length contentBefore - 1)) else [])
      in if line < int (length lines) \<and> column < int (length (lines ! l))
         then (if column < 0 then Inl SliceBoundsOutOfRange
               else Inr \<lparr>ContentBefore = contentBefore, ContentAfter = contentAfter,
                         LastCharacter = lastCharacter, LastLine = lastLine,
                         ContentImmediatelyAfter = drop (nat column) (lines ! l)\<rparr>)
         else Inr \<lparr>ContentBefore = contentBefore, ContentAfter = contentAfter,
                   LastCharacter = lastCharacter, LastLine = lastLine,
                   ContentImmediatelyAfter = []\<rparr>)"

section \<open>The completion handler: skip filter and response assembly\<close>

text \<open>\<^verbatim>\<open>shouldSkip(content, fullText)\<close>; the second argument is not read.\<close>

definition shouldSkip :: "ContentParts \<Rightarrow> string \<Rightarrow> bool" where
  "shouldSkip content fullText =
     (let lastChar = LastCharacter content in
      if lastChar = ''.'' then True
      else let lastLine = TrimSpace (LastLine content) in
        if HasPrefix lastLine ''//'' \<or> HasPrefix lastLine ''#'' then True
        else let trimmedLine = TrimSpace (LastLine content) in
          if trimmedLine = [] then True
          else if length trimmedLine < 2 then True
          else False)"

text \<open>
  \<^verbatim>\<open>findOverlapSuffix(hint, suffix)\<close>. The loop runs \<^verbatim>\<open>i\<close> from \<^verbatim>\<open>maxOverlap\<close>
  down to 1 and returns the first \<^verbatim>\<open>i\<close> at which the last \<^verbatim>\<open>i\<close> bytes of the
  hint equal the first \<^verbatim>\<open>i\<close> bytes of the suffix.
\<close>

fun overlap_loop :: "string \<Rightarrow> string \<Rightarrow> nat \<Rightarrow> nat" where
  "overlap_loop hint sfx 0 = 0"
| "overlap_loop hint sfx (Suc i) =
     (if drop (length hint - Suc i) hint = take (Suc i) sfx then Suc i
      else overlap_loop hint sfx i)"

definition findOverlapSuffix :: "string \<Rightarrow> string \<Rightarrow> nat" where
  "findOverlapSuffix hint sfx =
     (if sfx = [] then 0
      else let hint = TrimRight hint [CHR 0x20, CHR 0x09];
               maxOverlap = length hint;
               maxOverlap = (if length sfx < maxOverlap then length sfx else maxOverlap)
           in overlap_loop hint sfx maxOverlap)"

text \<open>The protocol types the assembler builds (package lsp), with the fields it sets.\<close>

record Position =
  Line :: int
  Character :: int

record Range =
  Start :: Position
  End :: Position

record TextEdit =
  Range :: Range
  NewText :: string

record CompletionItem =
  Label :: string
  Kind :: int
  Detail :: string
  InsertTextFormat :: int
  TextEdit :: "TextEdit option"
  SortText :: string
  Preselect :: bool
  AdditionalTextEdits :: "TextEdit list"

text \<open>
  \<^verbatim>\<open>buildCompletionItem(hint, content, position, index)\<close>. Positions are Go \<^verbatim>\<open>int\<close>s,
  modelled as \<^typ>\<open>int\<close>; the sums below stay far from the 64-bit range for any
  position an editor sends.
\<close>

definition buildCompletionItem ::
  "string \<Rightarrow> ContentParts \<Rightarrow> Position \<Rightarrow> int \<Rightarrow> CompletionItem" where
  "buildCompletionItem hint content position index =
     (let hint = TrimLeft hint [CHR 0x0A];
          hint = TrimRight hint [CHR 0x20, CHR 0x09, CHR 0x0A];
          lastLineTrimmed = TrimSpace (LastLine content);
          hint =
            (if lastLineTrimmed \<noteq> [] \<and> HasPrefix (TrimSpace hint) lastLineTrimmed
             then TrimSpace (drop (length lastLineTrimmed) hint) else hint);
          lines = Split_nl hint;
          endLine = Line position + int (length lines) - 1;
          endChar = int (length (lines ! (length lines - 1)));
          endChar = (if endLine = Line position then endChar + Character position else endChar);
          label = ''AI: '' @ lines ! 0;
          label = (if length label > 40 then take 40 label @ ''...'' else label);
          overlapLen = findOverlapSuffix hint (ContentImmediatelyAfter content);
          additionalEdits =
            (if overlapLen > 0
             then [\<lparr>Range = \<lparr>Start = \<lparr>Line = endLine, Character = endChar\<rparr>,
                              End = \<lparr>Line = endLine, Character = endChar + int overlapLen\<rparr>\<rparr>,
                     NewText = []\<rparr>]
             else [])
      in \<lparr>Label = label, Kind = 1, Detail = hint, InsertTextFormat = 1,
          TextEdit = Some \<lparr>Range = \<lparr>Start = position, End = position\<rparr>, NewText = hint\<rparr>,
          SortText = [], Preselect = True, AdditionalTextEdits = additionalEdits\<rparr>)"

section \<open>The completion handler: request lifecycle\<close>

text \<open>
  The handler's collaborators, with the fields the handler reads: a buffer of the
  document store, the parameters of a completion request, and an incoming message.
  \<^verbatim>\<open>msg.ID\<close> is a \<^verbatim>\<open>*int\<close>, so it may be nil. The field \<open>Params\<close> holds what
  \<^verbatim>\<open>json.Unmarshal(msg.Params, &params)\<close> yields, \<open>None\<close> when it returns an error.
\<close>

record Buffer =
  Text :: string
  Version :: int
  LanguageID :: string

record CompletionParams =
  URI :: string
  Position :: Position

record JSONRPCMessage =
  ID :: "int option"
  Params :: "CompletionParams option"

text \<open>
  What \<^verbatim>\<open>svc.Send\<close> is given: the identifier answered and the items of the
  completion list (\<^verbatim>\<open>IsIncomplete\<close> is always false).
\<close>

record Response =
  RespID :: "int option"
  Items :: "CompletionItem list"

text \<open>The configuration values the handler reads.\<close>

record Config =
  Debounce :: int
  CompletionTimeout :: int
  NumSuggestions :: int
  EnableProgressSpinner :: bool

text \<open>
  One call of \<^verbatim>\<open>h.registry.Completion\<close>: the request built from the text window,
  the document, its language and the number of suggestions. The registry and its
  providers are behind an interface, so what a call returns is given by the
  environment: a list of hints, an error, or a panic (which the deferred
  \<^verbatim>\<open>recover\<close> of \<^verbatim>\<open>executeCompletion\<close> catches).
\<close>

record BackendCall =
  CallBefore :: string
  CallAfter :: string
  CallURI :: string
  CallLanguageID :: string
  CallCount :: int

datatype backend_result = Hints "string list" | Failure | BackendPanic

text \<open>
  The values the closure passed to \<^verbatim>\<open>time.AfterFunc\<close> captures, that is the
  arguments of \<^verbatim>\<open>executeCompletion\<close>. A context is named by a number; cancelling
  it records the number in the state.
\<close>

record Exec =
  ExCtx :: nat
  ExMsg :: JSONRPCMessage
  ExParams :: CompletionParams
  ExVersion :: int
  ExURI :: string
  ExLanguageID :: string
  ExContent :: ContentParts
  ExReqID :: "64 word"

text \<open>
  \<^verbatim>\<open>h.timer\<close> is nil, a timer that has not fired yet (\<^verbatim>\<open>Stop\<close> returns true and
  the function never runs), or a timer that has fired (\<^verbatim>\<open>Stop\<close> returns false).
\<close>

datatype timer = Armed Exec | Fired

text \<open>
  A call of \<^verbatim>\<open>executeCompletion\<close> runs in the timer's goroutine and takes no lock,
  so new triggers interleave with it. It is split where it can be overtaken:
  \<open>Started\<close> before its three checks, \<open>Generating\<close> while the backend call runs.
\<close>

datatype phase = Started | Generating

text \<open>
  The state: the fields of \<^verbatim>\<open>CompletionHandler\<close> (the request counter is an
  \<^verbatim>\<open>atomic.Uint64\<close>; the zero \<^verbatim>\<open>time.Time\<close> is \<open>None\<close>), and around them the
  document store, the cancelled contexts, the running executions, the responses
  sent and the backend calls made so far.
\<close>

record handler_state =
  requestID :: "64 word"
  cancelCurrent :: "nat option"
  timer :: "timer option"
  lastTrigger :: "int option"
  lastContent :: string
  pendingMsgID :: "int option"
  buffers :: "string \<Rightarrow> Buffer option"
  nextCtx :: nat
  cancelled :: "nat list"
  running :: "(Exec \<times> phase) list"
  sent :: "Response list"
  calls :: "BackendCall list"

definition init_state :: "(string \<Rightarrow> Buffer option) \<Rightarrow> handler_state" where
  "init_state bufs =
     \<lparr>requestID = 0, cancelCurrent = None, timer = None, lastTrigger = None,
      lastContent = [], pendingMsgID = None, buffers = bufs, nextCtx = 0,
      cancelled = [], running = [], sent = [], calls = []\<rparr>"

definition Send :: "handler_state \<Rightarrow> Response \<Rightarrow> handler_state" where
  "Send s r = s\<lparr>sent := sent s @ [r]\<rparr>"

definition sendEmptyCompletion :: "handler_state \<Rightarrow> int option \<Rightarrow> handler_state" where
  "sendEmptyCompletion s i = Send s \<lparr>RespID = i, Items = []\<rparr>"

text \<open>
  \<^verbatim>\<open>scheduleCompletion\<close>, run under the handler's mutex at time \<open>now\<close> (milliseconds).
  \<^verbatim>\<open>time.Since(h.lastTrigger)\<close> of the zero time is far above 500 ms.
\<close>

definition scheduleCompletion ::
  "handler_state \<Rightarrow> JSONRPCMessage \<Rightarrow> CompletionParams \<Rightarrow> Buffer \<Rightarrow> ContentParts \<Rightarrow> int
     \<Rightarrow> handler_state" where
  "scheduleCompletion s msg params buffer content now =
     (let s = (case cancelCurrent s of
                 Some c \<Rightarrow> s\<lparr>cancelled := c # cancelled s, cancelCurrent := None\<rparr>
               | None \<Rightarrow> s);
          s = (case timer s of
                 Some t \<Rightarrow>
                   (let s = (case t of
                               Armed e \<Rightarrow>
                                 (if pendingMsgID s \<noteq> None
                                  then sendEmptyCompletion s (pendingMsgID s) else s)
                             | Fired \<Rightarrow> s)
                    in s\<lparr>timer := None\<rparr>)
               | None \<Rightarrow> s);
          s = s\<lparr>pendingMsgID := None\<rparr>;
          contentKey = ContentBefore content
      in if lastContent s = contentKey \<and>
            (case lastTrigger s of None \<Rightarrow> False | Some t \<Rightarrow> now - t < 500)
         then sendEmptyCompletion s (ID msg)
         else
           (let s = s\<lparr>lastContent := contentKey, lastTrigger := Some now\<rparr>;
                reqID = requestID s + 1;
                s = s\<lparr>requestID := reqID\<rparr>;
                ctx = nextCtx s
            in s\<lparr>nextCtx := ctx + 1, cancelCurrent := Some ctx, pendingMsgID := ID msg,
                 timer := Some (Armed \<lparr>ExCtx = ctx, ExMsg = msg, ExParams = params,
                                       ExVersion = Version buffer,
                                       ExURI = URI params,
                                       ExLanguageID = LanguageID buffer,
                                       ExContent = content, ExReqID = reqID\<rparr>)\<rparr>))"

text \<open>
  The function registered for completion events. \<^verbatim>\<open>GetContent\<close> is called outside
  \<^verbatim>\<open>executeCompletion\<close>, so a panic there is not recovered by the handler: the
  message gets no response from it.
\<close>

definition handleCompletion ::
  "handler_state \<Rightarrow> JSONRPCMessage \<Rightarrow> int \<Rightarrow> panic + handler_state" where
  "handleCompletion s msg now =
     (case Params msg of
        None \<Rightarrow> Inr (sendEmptyCompletion s (ID msg))
      | Some params \<Rightarrow>
          (case buffers s (URI params) of
             None \<Rightarrow> Inr (sendEmptyCompletion s (ID msg))
           | Some buffer \<Rightarrow>
               (case GetContent (Text buffer) (Line (Position params))
                       (Character (Position params)) of
                  Inl p \<Rightarrow> Inl p
                | Inr content \<Rightarrow>
                    if shouldSkip content (Text buffer)
                    then Inr (sendEmptyCompletion s (ID msg))
                    else Inr (scheduleCompletion s msg params buffer content now))))"

text \<open>
  \<^verbatim>\<open>executeCompletion\<close> up to the backend call: the three checks, then the request
  for the backend. The result says whether generation has started. The progress
  indicator only sends notifications of its own and is left out.
\<close>

definition executeCompletion_checks ::
  "Config \<Rightarrow> handler_state \<Rightarrow> Exec \<Rightarrow> handler_state \<times> bool" where
  "executeCompletion_checks cfg s e =
     (if requestID s \<noteq> ExReqID e then (sendEmptyCompletion s (ID (ExMsg e)), False)
      else case buffers s (ExURI e) of
        None \<Rightarrow> (sendEmptyCompletion s (ID (ExMsg e)), False)
      | Some buffer \<Rightarrow>
          if Version buffer > ExVersion e then (sendEmptyCompletion s (ID (ExMsg e)), False)
          else if ExCtx e \<in> set (cancelled s) then (sendEmptyCompletion s (ID (ExMsg e)), False)
          else
            (let content = ExContent e;
                 contentAfter = ContentImmediatelyAfter content;
                 contentAfter =
                   (if ContentAfter content \<noteq> []
                    then (if contentAfter \<noteq> []
                          then contentAfter @ [CHR 0x0A] @ ContentAfter content
                          else ContentAfter content)
                    else contentAfter)
             in (s\<lparr>calls := calls s @
                     [\<lparr>CallBefore = ContentBefore content, CallAfter = contentAfter,
                       CallURI = ExURI e, CallLanguageID = ExLanguageID e,
                       CallCount = NumSuggestions cfg\<rparr>]\<rparr>, True)))"

text \<open>
  \<^verbatim>\<open>executeCompletion\<close> from the return of the backend call to its single
  \<^verbatim>\<open>Send\<close>. Nothing is checked again here.
\<close>

definition executeCompletion_respond ::
  "handler_state \<Rightarrow> Exec \<Rightarrow> backend_result \<Rightarrow> handler_state" where
  "executeCompletion_respond s e r =
     (case r of
        BackendPanic \<Rightarrow> sendEmptyCompletion s (ID (ExMsg e))
      | Failure \<Rightarrow> sendEmptyCompletion s (ID (ExMsg e))
      | Hints hints \<Rightarrow>
          (let validHints =
                 filter (\<lambda>hint. let cleaned = TrimSpace hint
                                in cleaned \<noteq> [] \<and> length cleaned \<ge> 2) hints
           in if length validHints = 0 then sendEmptyCompletion s (ID (ExMsg e))
              else Send s \<lparr>RespID = ID (ExMsg e),
                            Items = map (\<lambda>(i, hint).
                                      buildCompletionItem hint (ExContent e)
                                        (Position (ExParams e)) (int i))
                                    (enumerate 0 validHints)\<rparr>))"

text \<open>
  What can happen to a handler: a trigger arrives at some time, the document store
  changes, the armed timer fires, a started execution makes its checks, the backend
  call of a generating execution returns. An event that cannot happen in a state
  (no armed timer, no such execution) leaves the state as it is.
\<close>

datatype event =
    Trigger JSONRPCMessage int
  | DidChange string "Buffer option"
  | TimerFires
  | ExecChecks nat
  | BackendReturns nat backend_result

definition remove_nth :: "nat \<Rightarrow> 'a list \<Rightarrow> 'a list" where
  "remove_nth i xs = take i xs @ drop (Suc i) xs"

definition step :: "Config \<Rightarrow> handler_state \<Rightarrow> event \<Rightarrow> panic + handler_state" where
  "step cfg s ev =
     (case ev of
        Trigger msg now \<Rightarrow> handleCompletion s msg now
      | DidChange uri b \<Rightarrow> Inr (s\<lparr>buffers := (buffers s)(uri := b)\<rparr>)
      | TimerFires \<Rightarrow>
          (case timer s of
             Some (Armed e) \<Rightarrow>
               Inr (s\<lparr>timer := Some Fired, running := running s @ [(e, Started)]\<rparr>)
           | _ \<Rightarrow> Inr s)
      | ExecChecks i \<Rightarrow>
          if i < length (running s) \<and> snd (running s ! i) = Started
          then (let e = fst (running s ! i);
                    (s', generating) = executeCompletion_checks cfg s e
                in Inr (s'\<lparr>running := (if generating then (running s)[i := (e, Generating)]
                                         else remove_nth i (running s))\<rparr>))
          else Inr s
      | BackendReturns i r \<Rightarrow>
          if i < length (running s) \<and> snd (running s ! i) = Generating
          then Inr ((executeCompletion_respond s (fst (running s ! i)) r)
                      \<lparr>running := remove_nth i (running s)\<rparr>)
          else Inr s)"

fun run :: "Config \<Rightarrow> handler_state \<Rightarrow> event list \<Rightarrow> panic + handler_state" where
  "run cfg s [] = Inr s"
| "run cfg s (ev # evs) =
     (case step cfg s ev of Inl p \<Rightarrow> Inl p | Inr s' \<Rightarrow> run cfg s' evs)"

section \<open>The generation backend (package providers)\<close>

subsection \<open>More of package strings\<close>

text \<open>
  \<^verbatim>\<open>strings.ToLower\<close> maps every rune to its lower case. The cleaner only compares
  the result with ASCII prefixes, and for that the model keeps what decides the
  comparison: ASCII letters are lowered, the two runes whose lower case is an ASCII
  letter (U+0130 to \<open>i\<close>, U+212A to \<open>k\<close>) are mapped to it, and every other byte
  above 127 stays a byte above 127.
\<close>

fun ToLower :: "string \<Rightarrow> string" where
  "ToLower [] = []"
| "ToLower (c # cs) =
     (if c = CHR 0xC4 \<and> prefix [CHR 0xB0] cs then CHR ''i'' # ToLower (drop 1 cs)
      else if c = CHR 0xE2 \<and> prefix [CHR 0x84, CHR 0xAA] cs then CHR ''k'' # ToLower (drop 2 cs)
      else (if 65 \<le> (of_char c :: nat) \<and> (of_char c :: nat) \<le> 90
            then char_of (of_char c + 32 :: nat) else c) # ToLower cs)"

text \<open>\<^verbatim>\<open>strings.Fields\<close>: the maximal runs of bytes between white space.\<close>

function Fields_from :: "string \<Rightarrow> string \<Rightarrow> string list" where
  "Fields_from cur s =
     (if s = [] then (if cur = [] then [] else [cur])
      else if space_prefix_len s \<noteq> 0
      then (if cur = [] then Fields_from [] (drop (space_prefix_len s) s)
            else cur # Fields_from [] (drop (space_prefix_len s) s))
      else Fields_from (cur @ [hd s]) (tl s))"
  by pat_completeness auto
termination
proof (relation "measure (\<lambda>(cur, s). length s)")
  show "wf (measure (\<lambda>(cur, s). length s))" by simp
next
  fix cur s :: string
  assume "s \<noteq> []" "space_prefix_len s \<noteq> 0"
  then show "(([], drop (space_prefix_len s) s), (cur, s)) \<in> measure (\<lambda>(cur, s). length s)"
    by simp
next
  fix cur s :: string
  assume "s \<noteq> []" "space_prefix_len s \<noteq> 0"
  then show "(([], drop (space_prefix_len s) s), (cur, s)) \<in> measure (\<lambda>(cur, s). length s)"
    by simp
next
  fix cur s :: string
  assume "s \<noteq> []"
  then show "((cur @ [hd s], tl s), (cur, s)) \<in> measure (\<lambda>(cur, s). length s)"
    by simp
qed

declare Fields_from.simps [simp del]

definition Fields :: "string \<Rightarrow> string list" where
  "Fields s = Fields_from [] s"

definition minInt :: "nat \<Rightarrow> nat \<Rightarrow> nat" where
  "minInt a b = (if a < b then a else b)"

subsection \<open>The candidate cleaner\<close>

text \<open>
  The first submatch of the regular expression \<^verbatim>\<open>(?s)```[a-z]*\n?(.*?)```\<close> in a
  string, \<open>None\<close> when there is no match. A match starts at the first fence; the
  greedy letters and the optional line feed after it hold no backquote, so the lazy
  group ends at the first fence that follows them.
\<close>

definition fence :: string where
  "fence = [CHR 0x60, CHR 0x60, CHR 0x60]"

definition codeBlockRe_submatch :: "string \<Rightarrow> string option" where
  "codeBlockRe_submatch s =
     (case Index s fence of
        None \<Rightarrow> None
      | Some p \<Rightarrow>
          (let r = drop (p + 3) s;
               r = dropWhile (\<lambda>c. 97 \<le> (of_char c :: nat) \<and> (of_char c :: nat) \<le> 122) r;
               r = (if prefix [CHR 0x0A] r then drop 1 r else r)
           in case Index r fence of None \<Rightarrow> None | Some q \<Rightarrow> Some (take q r)))"

text \<open>\<^verbatim>\<open>isBlockContext(before)\<close>.\<close>

definition blockStarters :: "string list" where
  "blockStarters = [''for '', ''for{'', ''if '', ''if('', ''else '', ''else{'',
                    ''switch '', ''select '', ''func '', ''func('']"

definition isBlockContext :: "string \<Rightarrow> bool" where
  "isBlockContext before =
     (let lines = Split_nl before in
      if length lines = 0 then False
      else let lastLine = TrimSpace (lines ! (length lines - 1)) in
        if list_ex (\<lambda>starter. HasPrefix lastLine starter \<or> Contains lastLine starter)
             blockStarters
        then True
        else if HasSuffix lastLine ''{'' then True
        else False)"

text \<open>\<^verbatim>\<open>truncateAtAfterOverlap(response, after)\<close>.\<close>

definition skipTokens :: "string list" where
  "skipTokens = [''{'', ''}'', ''('', '')'', ''['', '']'', ''//'', ''/*'']"

definition truncateAtAfterOverlap :: "string \<Rightarrow> string \<Rightarrow> string" where
  "truncateAtAfterOverlap response after =
     (if after = [] then response
      else let afterTrimmed = TrimSpace after in
        if afterTrimmed = [] then response
        else let firstAfterLine = Split_nl afterTrimmed ! 0;
                 firstAfterToken = TrimSpace firstAfterLine in
          if length firstAfterToken \<le> 1 then response
          else let words = Fields firstAfterToken in
            if length words = 0 then response
            else if words ! 0 \<in> set skipTokens \<and> \<not> length words > 1 then response
            else let firstWord = (if words ! 0 \<in> set skipTokens then words ! 1 else words ! 0) in
              if length firstWord \<ge> 2
              then (case Index response firstWord of
                      None \<Rightarrow> response
                    | Some idx \<Rightarrow>
                        if idx > 0
                        then (let prevChar = response ! (idx - 1) in
                              if prevChar = CHR 0x20 \<or> prevChar = CHR 0x09 \<or> prevChar = CHR 0x0A \<or>
                                 prevChar = CHR ''['' \<or> prevChar = CHR ''('' \<or> prevChar = CHR ''{'' \<or>
                                 prevChar = CHR ''='' \<or> prevChar = CHR '':''
                              then TrimRight (take idx response) [CHR 0x20, CHR 0x09]
                              else response)
                        else response)
              else response)"

text \<open>
  \<^verbatim>\<open>removeAfterDuplicates(response, after)\<close>. The inner loop compares the trimmed
  lines pairwise, stops at the first difference, and notes on its way whether a line
  is more than white space or a single brace.
\<close>

fun dup_scan :: "string list \<Rightarrow> string list \<Rightarrow> bool \<Rightarrow> bool \<times> bool" where
  "dup_scan (r # respEnd) (a # afterStart) hasSubstantialContent =
     (let respTrimmed = TrimSpace r;
          afterTrimmed = TrimSpace a;
          hasSubstantialContent =
            (if respTrimmed \<noteq> [] \<and> respTrimmed \<noteq> ''}'' \<and> respTrimmed \<noteq> ''{''
             then True else hasSubstantialContent)
      in if respTrimmed \<noteq> afterTrimmed then (False, hasSubstantialContent)
         else dup_scan respEnd afterStart hasSubstantialContent)"
| "dup_scan respEnd afterStart hasSubstantialContent = (True, hasSubstantialContent)"

text \<open>The outer loop, \<^verbatim>\<open>i\<close> running from \<^verbatim>\<open>minInt(3, len(respLines))\<close> down to 1.\<close>

fun dup_loop :: "string list \<Rightarrow> string list \<Rightarrow> nat \<Rightarrow> string list" where
  "dup_loop respLines afterLines 0 = respLines"
| "dup_loop respLines afterLines (Suc i) =
     (if length afterLines < Suc i then dup_loop respLines afterLines i
      else case dup_scan (drop (length respLines - Suc i) respLines)
                  (take (Suc i) afterLines) False of
        (match, hasSubstantialContent) \<Rightarrow>
          if match \<and> hasSubstantialContent
          then (if length respLines - Suc i < 1 then dup_loop respLines afterLines i
                else take (length respLines - Suc i) respLines)
          else dup_loop respLines afterLines i)"

definition removeAfterDuplicates :: "string \<Rightarrow> string \<Rightarrow> string" where
  "removeAfterDuplicates response after =
     (let afterLines = Split_nl after;
          respLines = Split_nl response
      in Join_nl (dup_loop respLines afterLines (minInt 3 (length respLines))))"

text \<open>
  \<^verbatim>\<open>removeAfterFunctionDuplicates(response, after)\<close>. The loop over \<^verbatim>\<open>i\<close> is given
  the indices still to visit; the loop over \<^verbatim>\<open>j\<close> returns at its first match whose
  result is long enough, and every match of one \<^verbatim>\<open>i\<close> computes the same result.
\<close>

fun func_dup_loop :: "string \<Rightarrow> string list \<Rightarrow> string list \<Rightarrow> nat list \<Rightarrow> string" where
  "func_dup_loop response respLines afterLines [] = response"
| "func_dup_loop response respLines afterLines (i # is) =
     (let line = TrimSpace (respLines ! i) in
      if (HasPrefix line ''func '' \<or> HasPrefix line ''func('') \<and>
         list_ex (\<lambda>j. line = TrimSpace (afterLines ! j)) [0 ..< minInt 10 (length afterLines)] \<and>
         length (TrimRight (Join_nl (take i respLines)) [CHR 0x20, CHR 0x09, CHR 0x0A])
           > length response div 3
      then TrimRight (Join_nl (take i respLines)) [CHR 0x20, CHR 0x09, CHR 0x0A]
      else func_dup_loop response respLines afterLines is)"

definition removeAfterFunctionDuplicates :: "string \<Rightarrow> string \<Rightarrow> string" where
  "removeAfterFunctionDuplicates response after =
     (if response = [] \<or> after = [] then response
      else let respLines = Split_nl response;
               afterLines = Split_nl after in
        if length respLines < 15 then response
        else let startCheckFrom = length respLines div 2
             in func_dup_loop response respLines afterLines [startCheckFrom ..< length respLines])"

text \<open>\<^verbatim>\<open>cleanCompletion(response, before, after)\<close>, in the order of the source.\<close>

definition modelTokens :: "string list" where
  "modelTokens = [''<|'', ''<FILL>'', ''<CURSOR>'', ''</s>'', ''<s>'']"

definition chatPrefixes :: "string list" where
  "chatPrefixes = [''here's the completion:'', ''here is the completion:'',
                   ''here is the completed code:'', ''completion:'', ''the completion is:'',
                   ''output:'', ''answer:'', ''code:'']"

definition strip_token :: "string \<Rightarrow> string \<Rightarrow> string" where
  "strip_token response token =
     (case Index response token of None \<Rightarrow> response | Some idx \<Rightarrow> take idx response)"

text \<open>
  The loop over the chat prefixes carries \<^verbatim>\<open>response\<close> and \<^verbatim>\<open>lower\<close>; the slice
  \<^verbatim>\<open>response[len(prefix):]\<close> is taken of the response as it is, not of its trimmed
  form.
\<close>

definition strip_prefix :: "string \<times> string \<Rightarrow> string \<Rightarrow> string \<times> string" where
  "strip_prefix rl pfx =
     (case rl of (response, lower) \<Rightarrow>
        if HasPrefix lower pfx
        then (let response = TrimSpace (drop (length pfx) response)
              in (response, ToLower (TrimSpace response)))
        else (response, lower))"

definition clean_tail :: "string \<Rightarrow> string" where
  "clean_tail response =
     (let response = TrimLeft response [CHR 0x0A];
          response = TrimRight response [CHR 0x20, CHR 0x09, CHR 0x0A];
          response = TrimLeft response [CHR 0x20, CHR 0x09]
      in if length (TrimSpace response) < 2 then [] else response)"

definition cleanCompletion :: "string \<Rightarrow> string \<Rightarrow> string \<Rightarrow> string" where
  "cleanCompletion response before after =
     (if response = [] then []
      else
        let response = (case codeBlockRe_submatch response of
                          Some m \<Rightarrow> TrimSpace m | None \<Rightarrow> response);
            response = Trim response [CHR 0x60];
            response = foldl strip_token response modelTokens;
            response = fst (foldl strip_prefix (response, ToLower (TrimSpace response))
                              chatPrefixes);
            beforeLines = Split_nl before;
            currentLinePrefix =
              (if length beforeLines > 0
               then TrimSpace (beforeLines ! (length beforeLines - 1)) else []);
            response =
              (if currentLinePrefix \<noteq> []
               then (let respTrimmed = TrimSpace response
                     in if HasPrefix respTrimmed currentLinePrefix
                        then TrimLeft (TrimPrefix respTrimmed currentLinePrefix) [CHR 0x20]
                        else response)
               else response);
            response =
              (if after \<noteq> []
               then removeAfterFunctionDuplicates
                      (removeAfterDuplicates (truncateAtAfterOverlap response after) after) after
               else response);
            response =
              (if \<not> isBlockContext before \<and> Contains response [CHR 0x0A]
               then (let lines = Split_nl response;
                         beforeTrimmed = TrimSpace before
                     in if HasSuffix beforeTrimmed ''var'' \<or> Contains beforeTrimmed ''var '' \<or>
                           Contains beforeTrimmed '':=''
                        then (let firstLine = TrimSpace (lines ! 0)
                              in if length firstLine \<ge> 2 then lines ! 0 else response)
                        else if length lines > 10
                        then (let firstLine = TrimSpace (lines ! 0)
                              in if length firstLine \<ge> 2 \<and> \<not> HasSuffix firstLine ''{''
                                 then lines ! 0 else response)
                        else response)
               else response)
        in clean_tail response)"

subsection \<open>Parallel generation\<close>

text \<open>
  \<^verbatim>\<open>Completion\<close> of the provider that starts one goroutine per suggestion. What the
  HTTP request of attempt \<open>idx\<close> and the decoding of its body yield comes from the
  environment: an error of \<^verbatim>\<open>doRequest\<close>, an error of \<^verbatim>\<open>json.Unmarshal\<close>, or the
  field \<^verbatim>\<open>Response\<close>.
\<close>

datatype api_outcome = RequestError | UnmarshalError | ApiResponse string

datatype attempt_error = RequestFailed | ParseFailed | EmptyResponse | EmptyAfterCleaning

record CompletionRequest =
  ReqContentBefore :: string
  ReqContentAfter :: string

record completionResult =
  index :: nat
  completion :: string
  err :: "attempt_error option"

text \<open>The body of one goroutine: the value it sends on the channel.\<close>

definition attempt :: "CompletionRequest \<Rightarrow> nat \<Rightarrow> api_outcome \<Rightarrow> completionResult" where
  "attempt req idx out =
     (case out of
        RequestError \<Rightarrow> \<lparr>index = idx, completion = [], err = Some RequestFailed\<rparr>
      | UnmarshalError \<Rightarrow> \<lparr>index = idx, completion = [], err = Some ParseFailed\<rparr>
      | ApiResponse resp \<Rightarrow>
          if resp = [] then \<lparr>index = idx, completion = [], err = Some EmptyResponse\<rparr>
          else let completion = cleanCompletion resp (ReqContentBefore req) (ReqContentAfter req)
               in if completion = []
                  then \<lparr>index = idx, completion = [], err = Some EmptyAfterCleaning\<rparr>
                  else \<lparr>index = idx, completion = completion, err = None\<rparr>)"

text \<open>
  The collecting loop over the channel, with the list built so far. The map
  \<^verbatim>\<open>seen\<close> holds exactly the strings of that list.
\<close>

fun collect :: "string list \<Rightarrow> completionResult list \<Rightarrow> string list" where
  "collect completions [] = completions"
| "collect completions (result # results) =
     (if err result = None \<and> completion result \<noteq> []
      then (if completion result \<notin> set completions
            then collect (completions @ [completion result]) results
            else collect completions results)
      else collect completions results)"

text \<open>
  \<^verbatim>\<open>Completion(ctx, req, filepath, languageID, numSuggestions)\<close>. The goroutines
  \<open>0\<close> to \<open>numSuggestions - 1\<close> send their results in an order the scheduler
  decides; \<open>arrival\<close> is that order. The second component is the error returned,
  which is nil on every path.
\<close>

definition Completion ::
  "(nat \<Rightarrow> api_outcome) \<Rightarrow> nat list \<Rightarrow> CompletionRequest \<Rightarrow> int
     \<Rightarrow> string list \<times> attempt_error option" where
  "Completion outcomes arrival req numSuggestions =
     (let completions = collect [] (map (\<lambda>idx. attempt req idx (outcomes idx)) arrival)
      in if length completions = 0 then ([], None) else (completions, None))"

text \<open>The number of goroutines started: \<^verbatim>\<open>numSuggestions\<close>, raised to 1 when below.\<close>

definition attempts_started :: "int \<Rightarrow> nat" where
  "attempts_started numSuggestions = nat (if numSuggestions < 1 then 1 else numSuggestions)"

section \<open>Notions used to state the properties\<close>






text \<open>
  The identifiers of the messages still owed a response: that of the armed timer and
  those of the running executions. The identifiers of the triggers in a list of
  events. And the events that let every running execution finish: its checks, then
  the return of its backend call.
\<close>

definition outstanding :: "handler_state \<Rightarrow> int option list" where
  "outstanding s =
     (case timer s of Some (Armed e) \<Rightarrow> [ID (ExMsg e)] | _ \<Rightarrow> []) @
     map (\<lambda>x. ID (ExMsg (fst x))) (running s)"

fun trigger_ids :: "event list \<Rightarrow> int option list" where
  "trigger_ids [] = []"
| "trigger_ids (Trigger msg now # evs) = ID msg # trigger_ids evs"
| "trigger_ids (ev # evs) = trigger_ids evs"

fun finish_events :: "nat \<Rightarrow> event list" where
  "finish_events 0 = []"
| "finish_events (Suc k) = ExecChecks 0 # BackendReturns 0 Failure # finish_events k"

text \<open>
  The identifiers, nil left aside, of the responses sent and of the messages still
  owed one. And the link between the two fields the supersession reads: while a
  timer is armed, \<^verbatim>\<open>pendingMsgID\<close> is the identifier of its message.
\<close>

definition accounted :: "handler_state \<Rightarrow> int option multiset" where
  "accounted s =
     filter_mset (\<lambda>i. i \<noteq> None) (mset (map RespID (sent s)) + mset (outstanding s))"

definition timer_inv :: "handler_state \<Rightarrow> bool" where
  "timer_inv s = (\<forall>e. timer s = Some (Armed e) \<longrightarrow> pendingMsgID s = ID (ExMsg e))"

text \<open>A document, a configuration and triggers for the scenarios below.\<close>

definition example_cfg :: Config where
  "example_cfg = \<lparr>Debounce = 200, CompletionTimeout = 15000, NumSuggestions = 3,
                  EnableProgressSpinner = False\<rparr>"

definition example_bufs :: "string \<Rightarrow> Buffer option" where
  "example_bufs u =
     (if u = ''a.go'' then Some \<lparr>Text = ''abcd'', Version = 1, LanguageID = ''go''\<rparr> else None)"

definition example_msg :: "int option \<Rightarrow> int \<Rightarrow> JSONRPCMessage" where
  "example_msg i column =
     \<lparr>ID = i, Params = Some \<lparr>URI = ''a.go'', Position = \<lparr>Line = 0, Character = column\<rparr>\<rparr>\<rparr>"

section \<open>Properties of the string functions\<close>

lemma Split_nl_not_Nil: "Split_nl s \<noteq> []"
  by (induction s) (auto split: list.splits)

lemma length_Split_nl_pos: "0 < length (Split_nl s)"
  using Split_nl_not_Nil [of s] by simp


lemma Split_nl_no_newline: "l \<in> set (Split_nl s) \<Longrightarrow> CHR 0x0A \<notin> set l"
proof (induction s arbitrary: l)
  case Nil
  then show ?case by simp
next
  case (Cons c cs)
  obtain m ms where sp: "Split_nl cs = m # ms"
    using Split_nl_not_Nil [of cs] by (cases "Split_nl cs") auto
  have m: "CHR 0x0A \<notin> set m" using Cons.IH [of m] sp by simp
  have ms: "\<And>x. x \<in> set ms \<Longrightarrow> CHR 0x0A \<notin> set x" using Cons.IH sp by simp
  show ?case
  proof (cases "c = CHR 0x0A")
    case True
    with Cons.prems sp m ms show ?thesis by auto
  next
    case False
    with Cons.prems sp m ms show ?thesis by auto
  qed
qed

text \<open>A negative column always reaches the unguarded slice expression.\<close>

lemma GetContent_negative_column:
  assumes "column < 0"
  shows "GetContent contents line column = Inl SliceBoundsOutOfRange"
proof -
  have "0 < length (Split_nl contents)" by (rule length_Split_nl_pos)
  with assms show ?thesis
    by (simp add: GetContent_def Let_def)
qed


lemma space_seqs_nonempty: "q \<in> set space_seqs \<Longrightarrow> q \<noteq> []"
  by (auto simp: space_seqs_def)


lemma space_prefix_len_0_iff:
  "space_prefix_len s = 0 \<longleftrightarrow> (\<forall>q \<in> set space_seqs. \<not> prefix q s)"
proof (cases "filter (\<lambda>q. prefix q s) space_seqs")
  case Nil
  then have "\<forall>q \<in> set space_seqs. \<not> prefix q s" by (simp add: filter_empty_conv)
  with Nil show ?thesis by (simp add: space_prefix_len_def)
next
  case (Cons q qs)
  then have "q \<in> set (filter (\<lambda>q. prefix q s) space_seqs)" by simp
  then have q: "q \<in> set space_seqs" "prefix q s" by simp_all
  then have "q \<noteq> []" by (simp add: space_seqs_nonempty)
  with Cons q show ?thesis by (auto simp: space_prefix_len_def)
qed


lemma TrimLeftSpace_fix: "space_prefix_len (TrimLeftSpace s) = 0"
proof (induction s rule: TrimLeftSpace.induct)
  case (1 s)
  show ?case
  proof (cases "space_prefix_len s = 0")
    case True
    then show ?thesis by (simp add: TrimLeftSpace.simps [of s])
  next
    case False
    with 1 show ?thesis by (simp add: TrimLeftSpace.simps [of s])
  qed
qed







section \<open>The text window\<close>

text \<open>
  C9. For every document text, every line and every column that is not negative,
  \<^verbatim>\<open>GetContent\<close> returns without failure: a line below 0 is taken as the first
  line and a line past the end as the last one; the text before the cursor is the
  lines up to the cursor line, that one cut at the column; the text after it is the
  lines from the next one on; the last line is the cursor line cut at the column,
  white space included; the last character is the last byte of the text before the
  cursor converted to a string, if there is one (the byte itself when it is ASCII);
  and the text immediately after is the rest of the cursor line.
\<close>

theorem GetContent_window:
  assumes "0 \<le> column"
  shows "GetContent contents line column =
         (let lines = Split_nl contents;
              l = (if line < 0 then 0
                   else if int (length lines) \<le> line then length lines - 1 else nat line);
              cur = lines ! l; c = nat column;
              before = Join_nl (take l lines @ [take c cur])
          in Inr \<lparr>ContentBefore = before,
                 ContentAfter = Join_nl (drop (l + 1) lines),
                 LastCharacter = (if before = [] then [] else byte_string (last before)),
                 LastLine = take c cur,
                 ContentImmediatelyAfter = drop c cur\<rparr>)"
proof -
  define lines where "lines = Split_nl contents"
  define l where "l = (if line < 0 then 0
                   else if int (length lines) \<le> line then length lines - 1 else nat line)"
  have n: "0 < length lines" unfolding lines_def by (rule length_Split_nl_pos)
  have l: "l < length lines" using n unfolding l_def by auto
  have tk: "take (Suc l) lines = take l lines @ [lines ! l]"
    using l by (simp add: take_Suc_conv_app_nth)
  define cl where "cl = (if (if line < 0 then 0 else line) \<ge> int (length lines)
      then int (length lines) - 1 else (if line < 0 then 0 else line))"
  have cl: "nat cl = l" "cl < int (length lines)"
    using n unfolding cl_def l_def by auto
  define cur where "cur = lines ! l"
  define c where "c = nat column"
  have nth: "take (Suc l) lines ! l = cur" using l by (simp add: cur_def)
  have upd: "(take (Suc l) lines)[l := x] = take l lines @ [x]" for x
    using l by (simp add: tk list_update_append)
  have lenl: "length (take l lines) = l" using l by simp
  have lc: "s \<noteq> [] \<Longrightarrow> s ! (length s - Suc 0) = last s" for s :: string
    by (simp add: last_conv_nth)
  show ?thesis
  proof (cases "c < length cur")
    case True
    then have col: "column < int (length cur)" using assms by (simp add: c_def)
    show ?thesis
      unfolding GetContent_def Let_def lines_def [symmetric] cl_def [symmetric]
      using assms col True cl lenl
      by (simp add: nth upd cur_def [symmetric] c_def [symmetric] l_def [symmetric] lc nth_append)
  next
    case False
    then have col: "\<not> column < int (length cur)" using assms by (simp add: c_def)
    show ?thesis
      unfolding GetContent_def Let_def lines_def [symmetric] cl_def [symmetric]
      using assms col False cl lenl
      by (simp add: nth tk cur_def [symmetric] c_def [symmetric] l_def [symmetric] lc nth_append)
  qed
qed

theorem GetContent_window_witness:
  "(0::int) \<le> 3 \<and>
   GetContent ''ab\<newline>cdef\<newline>g'' 1 3 =
     Inr \<lparr>ContentBefore = ''ab\<newline>cde'', ContentAfter = ''g'', LastCharacter = ''e'',
           LastLine = ''cde'', ContentImmediatelyAfter = ''f''\<rparr>"
  using GetContent_window [of 3 "''ab\<newline>cdef\<newline>g''" 1] by (simp add: byte_string_def)

text \<open>
  As the claim has it, a line index out of range is taken as the last line and the
  last line is trimmed. At line \<open>-1\<close> of a text of two lines the first line is
  used, not the last, and its leading white space is kept.
\<close>

theorem GetContent_claim_counterexample:
  "GetContent ''  a\<newline>b'' (- 1) 3 =
     Inr \<lparr>ContentBefore = ''  a'', ContentAfter = ''b'', LastCharacter = ''a'',
           LastLine = ''  a'', ContentImmediatelyAfter = []\<rparr>
   \<and> GetContent ''  a\<newline>b'' (- 1) 3 \<noteq> GetContent ''  a\<newline>b'' 1 3
   \<and> TrimSpace ''  a'' \<noteq> ''  a''"
proof -
  have "TrimSpace ''  a'' = ''a''" by code_simp
  then show ?thesis by (simp add: GetContent_def Let_def byte_string_def)
qed

section \<open>The response assembler\<close>

















section \<open>Duplicated trailing lines\<close>

lemma Split_nl_plain: "CHR 0x0A \<notin> set l \<Longrightarrow> Split_nl l = [l]"
  by (induction l) auto

lemma Split_nl_append:
  "CHR 0x0A \<notin> set l \<Longrightarrow> Split_nl (l @ CHR 0x0A # r) = l # Split_nl r"
  by (induction l) auto

lemma Split_nl_Join_nl:
  assumes "ls \<noteq> []" "\<forall>l \<in> set ls. CHR 0x0A \<notin> set l"
  shows "Split_nl (Join_nl ls) = ls"
  using assms
proof (induction ls rule: Join_nl.induct)
  case 1
  then show ?case by simp
next
  case (2 l)
  then show ?case by (simp add: Split_nl_plain)
next
  case (3 l m ls)
  then show ?case by (simp add: Split_nl_append)
qed

lemma dup_scan_match:
  assumes "length rs = length as"
  shows "fst (dup_scan rs as h) \<longleftrightarrow> (\<forall>j < length rs. TrimSpace (rs ! j) = TrimSpace (as ! j))"
  using assms
proof (induction rs as h rule: dup_scan.induct)
  case (1 r respEnd a afterStart h)
  then show ?case by (auto simp: Let_def nth_Cons split: nat.splits)
qed simp_all

lemma dup_scan_substantial:
  assumes "length rs = length as" "fst (dup_scan rs as h)"
  shows "snd (dup_scan rs as h) \<longleftrightarrow>
         (h \<or> (\<exists>j < length rs. TrimSpace (rs ! j) \<noteq> [] \<and> TrimSpace (rs ! j) \<noteq> ''}''
                    \<and> TrimSpace (rs ! j) \<noteq> ''{''))"
  using assms
proof (induction rs as h rule: dup_scan.induct)
  case (1 r respEnd a afterStart h)
  then show ?case
    by (auto simp: Let_def nth_Cons less_Suc_eq_0_disj split: if_splits)
qed simp_all


lemma dup_loop_char:
  assumes "m \<le> length R"
  shows "\<exists>i \<le> m. dup_loop R A m = take (length R - i) R \<and>
           (i = 0 \<or>
            (i < length R \<and> i \<le> length A \<and>
             (\<forall>j < i. TrimSpace (R ! (length R - i + j)) = TrimSpace (A ! j)) \<and>
             (\<exists>j < i. TrimSpace (R ! (length R - i + j)) \<noteq> [] \<and>
                        TrimSpace (R ! (length R - i + j)) \<noteq> ''}'' \<and>
                        TrimSpace (R ! (length R - i + j)) \<noteq> ''{'')))"
  using assms
proof (induction m)
  case 0
  show ?case by simp
next
  case (Suc m)
  from Suc.prems have m: "m \<le> length R" by simp
  from Suc.IH [OF m] obtain i where i: "i \<le> m" "dup_loop R A m = take (length R - i) R"
     "i = 0 \<or>
            (i < length R \<and> i \<le> length A \<and>
             (\<forall>j < i. TrimSpace (R ! (length R - i + j)) = TrimSpace (A ! j)) \<and>
             (\<exists>j < i. TrimSpace (R ! (length R - i + j)) \<noteq> [] \<and>
                        TrimSpace (R ! (length R - i + j)) \<noteq> ''}'' \<and>
                        TrimSpace (R ! (length R - i + j)) \<noteq> ''{''))"
    by blast
  then have keep: "dup_loop R A (Suc m) = dup_loop R A m \<Longrightarrow> ?case"
    by (metis le_SucI)
  define rs where "rs = drop (length R - Suc m) R"
  define as where "as = take (Suc m) A"
  show ?case
  proof (cases "length A < Suc m")
    case True
    then have "dup_loop R A (Suc m) = dup_loop R A m" by simp
    then show ?thesis by (rule keep)
  next
    case False
    then have len: "length rs = length as" "length rs = Suc m"
      using Suc.prems by (simp_all add: rs_def as_def)
    have nth: "\<And>j. j < Suc m \<Longrightarrow> rs ! j = R ! (length R - Suc m + j)"
              "\<And>j. j < Suc m \<Longrightarrow> as ! j = A ! j"
      using Suc.prems False by (simp_all add: rs_def as_def)
    obtain mt hs where sc: "dup_scan (drop (length R - Suc m) R) (take (Suc m) A) False = (mt, hs)"
      by (cases "dup_scan (drop (length R - Suc m) R) (take (Suc m) A) False") auto
    then have fs: "fst (dup_scan rs as False) = mt" "snd (dup_scan rs as False) = hs"
      by (simp_all add: rs_def as_def)
    show ?thesis
    proof (cases "fst (dup_scan rs as False) \<and> snd (dup_scan rs as False)
                  \<and> \<not> length R - Suc m < 1")
      case True
      then have res: "dup_loop R A (Suc m) = take (length R - Suc m) R"
        using False sc fs by simp
      from True have ma: "\<forall>j < Suc m. TrimSpace (rs ! j) = TrimSpace (as ! j)"
        using dup_scan_match [OF len(1), of False] len(2) by simp
      from True have su: "\<exists>j < Suc m. TrimSpace (rs ! j) \<noteq> [] \<and> TrimSpace (rs ! j) \<noteq> ''}''
                    \<and> TrimSpace (rs ! j) \<noteq> ''{''"
        using dup_scan_substantial [OF len(1), of False] len(2) by simp
      from True have lt: "Suc m < length R" by simp
      have le: "Suc m \<le> length A" using False by simp
      show ?thesis
        apply (rule exI [of _ "Suc m"])
        using res ma su lt le nth by auto
    next
      case no: False
      then have "dup_loop R A (Suc m) = dup_loop R A m"
        using False sc fs by auto
      then show ?thesis by (rule keep)
    qed
  qed
qed


text \<open>
  C10. For every response and every text after the cursor, \<^verbatim>\<open>removeAfterDuplicates\<close>
  returns the first lines of the response joined again, dropping \<open>i\<close> trailing
  lines with \<open>i\<close> at most \<^verbatim>\<open>minInt(3, n)\<close> and below the number \<open>n\<close> of lines, so
  the first line is always kept and the result is not empty when the first line is
  not. Lines are dropped only when there are at least \<open>i\<close> lines after the cursor,
  the \<open>i\<close> trailing lines equal the first \<open>i\<close> of them after trimming, and one of
  them is more than white space or a single brace.
\<close>

theorem removeAfterDuplicates_keeps_first_line:
  "(let respLines = Split_nl response; afterLines = Split_nl after;
        n = length respLines; result = removeAfterDuplicates response after
    in \<exists>i. i \<le> minInt 3 n \<and> i < n \<and>
         Split_nl result = take (n - i) respLines \<and>
         result = Join_nl (take (n - i) respLines) \<and>
         (respLines ! 0 \<noteq> [] \<longrightarrow> result \<noteq> []) \<and>
         (0 < i \<longrightarrow>
            i \<le> length afterLines \<and>
            (\<forall>j < i. TrimSpace (respLines ! (n - i + j)) = TrimSpace (afterLines ! j)) \<and>
            (\<exists>j < i. TrimSpace (respLines ! (n - i + j)) \<noteq> [] \<and>
                       TrimSpace (respLines ! (n - i + j)) \<noteq> ''}'' \<and>
                       TrimSpace (respLines ! (n - i + j)) \<noteq> ''{'')))"
proof -
  define R where "R = Split_nl response"
  define A where "A = Split_nl after"
  have n: "0 < length R" unfolding R_def by (rule length_Split_nl_pos)
  have "minInt 3 (length R) \<le> length R" by (simp add: minInt_def)
  from dup_loop_char [OF this, of A]
  obtain i where i: "i \<le> minInt 3 (length R)" "dup_loop R A (minInt 3 (length R)) = take (length R - i) R"
     "i = 0 \<or>
            (i < length R \<and> i \<le> length A \<and>
             (\<forall>j < i. TrimSpace (R ! (length R - i + j)) = TrimSpace (A ! j)) \<and>
             (\<exists>j < i. TrimSpace (R ! (length R - i + j)) \<noteq> [] \<and>
                        TrimSpace (R ! (length R - i + j)) \<noteq> ''}'' \<and>
                        TrimSpace (R ! (length R - i + j)) \<noteq> ''{''))"
    by blast
  have res: "removeAfterDuplicates response after = Join_nl (take (length R - i) R)"
    using i(2) by (simp add: removeAfterDuplicates_def Let_def R_def A_def)
  have lt: "i < length R" using i(3) n by auto
  then have ne: "take (length R - i) R \<noteq> []" using n by simp
  have nonl: "\<forall>l \<in> set (take (length R - i) R). CHR 0x0A \<notin> set l"
    using Split_nl_no_newline [of _ response] in_set_takeD [of _ "length R - i" R]
    unfolding R_def by blast
  have sp: "Split_nl (removeAfterDuplicates response after) = take (length R - i) R"
    unfolding res using ne nonl by (rule Split_nl_Join_nl)
  have first: "R ! 0 \<noteq> [] \<Longrightarrow> removeAfterDuplicates response after \<noteq> []"
  proof
    assume a: "R ! 0 \<noteq> []" and b: "removeAfterDuplicates response after = []"
    from b sp have "take (length R - i) R = [[]]" by simp
    then have "take (length R - i) R ! 0 = []" by simp
    with lt have "R ! 0 = []" by simp
    with a show False by simp
  qed
  show ?thesis
    unfolding Let_def R_def [symmetric] A_def [symmetric]
    apply (rule exI [of _ i])
    using i(1) lt sp res first i(3) by auto
qed

theorem removeAfterDuplicates_keeps_first_line_witness:
  "removeAfterDuplicates ''a\<newline>foo\<newline>}'' ''foo\<newline>}\<newline>bar'' = ''a'' \<and>
   Split_nl ''a\<newline>foo\<newline>}'' ! 0 \<noteq> [] \<and>
   removeAfterDuplicates ''a\<newline>foo\<newline>}'' ''foo\<newline>}\<newline>bar'' \<noteq> []"
proof -
  have e: "removeAfterDuplicates ''a\<newline>foo\<newline>}'' ''foo\<newline>}\<newline>bar'' = ''a''"
    by code_simp
  have f: "Split_nl ''a\<newline>foo\<newline>}'' ! 0 \<noteq> []" by simp
  from removeAfterDuplicates_keeps_first_line [of "''a\<newline>foo\<newline>}''" "''foo\<newline>}\<newline>bar''"]
  have "Split_nl ''a\<newline>foo\<newline>}'' ! 0 \<noteq> [] \<longrightarrow>
        removeAfterDuplicates ''a\<newline>foo\<newline>}'' ''foo\<newline>}\<newline>bar'' \<noteq> []"
    unfolding Let_def by blast
  with e f show ?thesis by blast
qed


text \<open>
  As the claim has it, the result is never empty for a response that is not. A
  response whose first line is empty and whose second line repeats the text after
  the cursor is cut down to its empty first line.
\<close>

theorem removeAfterDuplicates_empty_counterexample:
  "''\<newline>x'' \<noteq> [] \<and> removeAfterDuplicates ''\<newline>x'' ''x'' = []"
proof -
  have "removeAfterDuplicates ''\<newline>x'' ''x'' = []" by code_simp
  then show ?thesis by simp
qed

section \<open>Parallel generation\<close>

lemma set_collect:
  "set (collect acc rs) =
     set acc \<union> {completion r | r. r \<in> set rs \<and> err r = None \<and> completion r \<noteq> []}"
  by (induction rs arbitrary: acc) auto

lemma distinct_collect: "distinct acc \<Longrightarrow> distinct (collect acc rs)"
  by (induction rs arbitrary: acc) auto

lemma attempt_ok_nonempty: "err (attempt req idx out) = None \<Longrightarrow> completion (attempt req idx out) \<noteq> []"
  by (auto simp: attempt_def Let_def split: api_outcome.splits if_splits)


text \<open>
  C8. For every call of the parallel \<^verbatim>\<open>Completion\<close>, whatever the order in which the
  attempts deliver, the error returned is nil, no string occurs twice in the list
  returned, and the list holds exactly the completions of the attempts that
  succeeded, so that an attempt that fails takes nothing away from the others; when
  every attempt fails the list is empty.
\<close>

theorem Completion_collects:
  assumes "mset arrival = mset [0 ..< attempts_started numSuggestions]"
  shows "(let result = Completion outcomes arrival req numSuggestions;
              n = attempts_started numSuggestions
          in snd result = None \<and>
             distinct (fst result) \<and>
             set (fst result) =
               {completion (attempt req idx (outcomes idx)) | idx.
                  idx < n \<and> err (attempt req idx (outcomes idx)) = None} \<and>
             ((\<forall>idx < n. err (attempt req idx (outcomes idx)) \<noteq> None) \<longrightarrow> fst result = []))"
proof -
  define n where "n = attempts_started numSuggestions"
  define rs where "rs = map (\<lambda>idx. attempt req idx (outcomes idx)) arrival"
  define cs where "cs = collect [] rs"
  have res: "Completion outcomes arrival req numSuggestions = (cs, None)"
    by (simp add: Completion_def Let_def cs_def rs_def)
  have "set arrival = set [0 ..< n]" using assms unfolding n_def by (rule mset_eq_setD)
  then have arr: "set arrival = {0 ..< n}" by simp
  have d: "distinct cs" unfolding cs_def by (rule distinct_collect) simp
  have "set cs = {completion r | r. r \<in> set rs \<and> err r = None \<and> completion r \<noteq> []}"
    unfolding cs_def by (simp add: set_collect)
  also have "\<dots> = {completion (attempt req idx (outcomes idx)) | idx.
                  idx < n \<and> err (attempt req idx (outcomes idx)) = None}"
    using arr attempt_ok_nonempty by (auto simp: rs_def)
  finally have s: "set cs = {completion (attempt req idx (outcomes idx)) | idx.
                  idx < n \<and> err (attempt req idx (outcomes idx)) = None}" .
  have e: "(\<forall>idx < n. err (attempt req idx (outcomes idx)) \<noteq> None) \<longrightarrow> cs = []"
  proof
    assume "\<forall>idx < n. err (attempt req idx (outcomes idx)) \<noteq> None"
    with s have "set cs = {}" by auto
    then show "cs = []" by simp
  qed
  show ?thesis
    unfolding Let_def res n_def [symmetric] using d s e by simp
qed

theorem Completion_collects_witness:
  "mset [2, 0, 1] = mset [0 ..< attempts_started 3] \<and>
   Completion (\<lambda>idx. if idx = 1 then RequestError else ApiResponse ''foo()'') [2, 0, 1]
     \<lparr>ReqContentBefore = ''x := '', ReqContentAfter = []\<rparr> 3 = ([''foo()''], None) \<and>
   distinct (fst (Completion (\<lambda>idx. if idx = 1 then RequestError else ApiResponse ''foo()'') [2, 0, 1]
     \<lparr>ReqContentBefore = ''x := '', ReqContentAfter = []\<rparr> 3))"
proof -
  have up: "[0 ..< attempts_started 3] = [0, 1, 2]"
    by (simp add: attempts_started_def upt_rec)
  have h: "mset [2, 0, 1] = mset [0 ..< attempts_started 3]"
    unfolding up by simp
  have ev: "Completion (\<lambda>idx. if idx = 1 then RequestError else ApiResponse ''foo()'') [2, 0, 1]
     \<lparr>ReqContentBefore = ''x := '', ReqContentAfter = []\<rparr> 3 = ([''foo()''], None)"
    by code_simp
  from Completion_collects [OF h]
  have "distinct (fst (Completion (\<lambda>idx. if idx = 1 then RequestError else ApiResponse ''foo()'') [2, 0, 1]
     \<lparr>ReqContentBefore = ''x := '', ReqContentAfter = []\<rparr> 3))"
    unfolding Let_def by blast
  with h ev show ?thesis by blast
qed

section \<open>The skip filter\<close>



section \<open>A document that changed during the debounce\<close>

text \<open>
  C4. For every execution whose timer has fired and whose checks are about to run,
  if the document is no longer in the store or its version is above the version
  captured at the trigger, the checks answer the message with an empty list, the
  execution ends there, and the list of backend calls is unchanged.
\<close>

theorem changed_document_answered_empty:
  assumes "i < length (running s)"
    and "running s ! i = (e, Started)"
    and "case buffers s (ExURI e) of None \<Rightarrow> True | Some buffer \<Rightarrow> Version buffer > ExVersion e"
  shows "step cfg s (ExecChecks i) =
           Inr (s\<lparr>running := remove_nth i (running s),
                   sent := sent s @ [\<lparr>RespID = ID (ExMsg e), Items = []\<rparr>]\<rparr>)"
proof -
  have "executeCompletion_checks cfg s e =
          (s\<lparr>sent := sent s @ [\<lparr>RespID = ID (ExMsg e), Items = []\<rparr>]\<rparr>, False)"
    using assms(3)
    by (auto simp: executeCompletion_checks_def sendEmptyCompletion_def Send_def
             split: option.splits)
  with assms(1,2) show ?thesis
    by (simp add: step_def Let_def)
qed

theorem changed_document_answered_empty_witness:
  "(let cfg = \<lparr>Debounce = 200, CompletionTimeout = 15000, NumSuggestions = 3,
               EnableProgressSpinner = False\<rparr>;
        v3 = \<lparr>Text = ''ab'', Version = 3, LanguageID = ''go''\<rparr>;
        v4 = \<lparr>Text = ''abc'', Version = 4, LanguageID = ''go''\<rparr>;
        msg = \<lparr>ID = Some 7, Params = Some \<lparr>URI = ''a.go'', Position = \<lparr>Line = 0, Character = 2\<rparr>\<rparr>\<rparr>;
        s = projr (run cfg (init_state (\<lambda>u. if u = ''a.go'' then Some v3 else None))
                     [Trigger msg 0, DidChange ''a.go'' (Some v4), TimerFires]);
        e = fst (running s ! 0)
    in 0 < length (running s) \<and> running s ! 0 = (e, Started) \<and>
       sent s = [] \<and> calls s = [] \<and>
       (case buffers s (ExURI e) of None \<Rightarrow> True | Some buffer \<Rightarrow> Version buffer > ExVersion e) \<and>
       (case step cfg s (ExecChecks 0) of
          Inl p \<Rightarrow> False
        | Inr s' \<Rightarrow> sent s' = [\<lparr>RespID = Some 7, Items = []\<rparr>] \<and> calls s' = [] \<and> running s' = []))"
proof -
  define cfg where "cfg = \<lparr>Debounce = 200, CompletionTimeout = 15000, NumSuggestions = 3,
               EnableProgressSpinner = False\<rparr>"
  define v3 where "v3 = \<lparr>Text = ''ab'', Version = 3, LanguageID = ''go''\<rparr>"
  define v4 where "v4 = \<lparr>Text = ''abc'', Version = 4, LanguageID = ''go''\<rparr>"
  define msg where "msg = \<lparr>ID = Some (7::int),
      Params = Some \<lparr>URI = ''a.go'', Position = \<lparr>Line = 0, Character = 2\<rparr>\<rparr>\<rparr>"
  define s where "s = projr (run cfg (init_state (\<lambda>u. if u = ''a.go'' then Some v3 else None))
                     [Trigger msg 0, DidChange ''a.go'' (Some v4), TimerFires])"
  define e where "e = fst (running s ! 0)"
  have h1: "0 < length (running s)"
    unfolding s_def cfg_def v3_def v4_def msg_def by code_simp
  have h2: "running s ! 0 = (e, Started)"
    unfolding e_def s_def cfg_def v3_def v4_def msg_def by code_simp
  have h3: "case buffers s (ExURI e) of None \<Rightarrow> True | Some buffer \<Rightarrow> Version buffer > ExVersion e"
    unfolding e_def s_def cfg_def v3_def v4_def msg_def by code_simp
  have f: "sent s = []" "calls s = []" "length (running s) = 1" "ID (ExMsg e) = Some 7"
    unfolding e_def s_def cfg_def v3_def v4_def msg_def by code_simp+
  from f(3) have r: "remove_nth 0 (running s) = []"
    by (cases "running s") (simp_all add: remove_nth_def)
  from changed_document_answered_empty [OF h1 h2 h3, of cfg]
  have "case step cfg s (ExecChecks 0) of
          Inl p \<Rightarrow> False
        | Inr s' \<Rightarrow> sent s' = [\<lparr>RespID = Some 7, Items = []\<rparr>] \<and> calls s' = [] \<and> running s' = []"
    by (simp add: f r)
  with h1 h2 h3 f show ?thesis
    unfolding Let_def cfg_def [symmetric] v3_def [symmetric] v4_def [symmetric]
      msg_def [symmetric] s_def [symmetric] e_def [symmetric]
    by simp
qed

section \<open>The request lifecycle\<close>

lemma accounted_cong:
  "sent s' = sent s \<Longrightarrow> timer s' = timer s \<Longrightarrow> running s' = running s
     \<Longrightarrow> accounted s' = accounted s"
  by (simp add: accounted_def outstanding_def)

lemma Send_fields [simp]:
  "sent (Send s r) = sent s @ [r]" "timer (Send s r) = timer s"
  "running (Send s r) = running s" "pendingMsgID (Send s r) = pendingMsgID s"
  "calls (Send s r) = calls s" "requestID (Send s r) = requestID s"
  by (simp_all add: Send_def)

lemma accounted_Send:
  "accounted (Send s r) = accounted s + filter_mset (\<lambda>i. i \<noteq> None) {#RespID r#}"
  by (simp add: accounted_def outstanding_def)

lemma scheduleCompletion_accounted:
  assumes "timer_inv s"
  shows "accounted (scheduleCompletion s msg params buffer content now) =
           accounted s + filter_mset (\<lambda>i. i \<noteq> None) {#ID msg#}"
    and "timer_inv (scheduleCompletion s msg params buffer content now)"
    and "running (scheduleCompletion s msg params buffer content now) = running s"
proof -
  define s1 where "s1 = (case cancelCurrent s of
                 Some c \<Rightarrow> s\<lparr>cancelled := c # cancelled s, cancelCurrent := None\<rparr>
               | None \<Rightarrow> s)"
  define s2 where "s2 = (case timer s1 of
                 Some t \<Rightarrow>
                   (let s = (case t of
                               Armed e \<Rightarrow>
                                 (if pendingMsgID s1 \<noteq> None
                                  then sendEmptyCompletion s1 (pendingMsgID s1) else s1)
                             | Fired \<Rightarrow> s1)
                    in s\<lparr>timer := None\<rparr>)
               | None \<Rightarrow> s1)"
  define s3 where "s3 = s2\<lparr>pendingMsgID := None\<rparr>"
  define dup where "dup = (lastContent s3 = ContentBefore content \<and>
            (case lastTrigger s3 of None \<Rightarrow> False | Some t \<Rightarrow> now - t < 500))"
  define s4 where "s4 = s3\<lparr>lastContent := ContentBefore content, lastTrigger := Some now\<rparr>"
  define s5 where "s5 = s4\<lparr>requestID := requestID s4 + 1\<rparr>"
  define e' where "e' = \<lparr>ExCtx = nextCtx s5, ExMsg = msg, ExParams = params,
                                       ExVersion = Version buffer,
                                       ExURI = URI params,
                                       ExLanguageID = LanguageID buffer,
                                       ExContent = content, ExReqID = requestID s4 + 1\<rparr>"
  define s6 where "s6 = s5\<lparr>nextCtx := nextCtx s5 + 1, cancelCurrent := Some (nextCtx s5),
                 pendingMsgID := ID msg, timer := Some (Armed e')\<rparr>"
  have eq: "scheduleCompletion s msg params buffer content now =
              (if dup then sendEmptyCompletion s3 (ID msg) else s6)"
    unfolding s6_def e'_def s5_def s4_def dup_def s3_def s2_def s1_def scheduleCompletion_def Let_def
    by (rule refl)
  have s1: "sent s1 = sent s" "timer s1 = timer s" "running s1 = running s"
    "pendingMsgID s1 = pendingMsgID s"
    by (simp_all add: s1_def split: option.splits)
  have a1: "accounted s1 = accounted s" by (rule accounted_cong) (simp_all add: s1)
  have i1: "timer_inv s1" using assms s1 by (simp add: timer_inv_def)
  have t2: "timer s2 = None" "running s2 = running s1"
    by (simp_all add: s2_def Let_def sendEmptyCompletion_def split: option.splits timer.splits)
  have a2: "accounted s2 = accounted s1"
  proof (cases "timer s1")
    case None
    then show ?thesis by (simp add: s2_def)
  next
    case (Some t)
    show ?thesis
    proof (cases t)
      case Fired
      with Some show ?thesis
        by (simp add: s2_def accounted_def outstanding_def)
    next
      case (Armed e)
      with Some i1 have p: "pendingMsgID s1 = ID (ExMsg e)" by (simp add: timer_inv_def)
      show ?thesis
      proof (cases "pendingMsgID s1")
        case None
        with Some Armed p show ?thesis
          by (simp add: s2_def accounted_def outstanding_def)
      next
        case (Some m)
        with \<open>timer s1 = Some t\<close> Armed p show ?thesis
          by (simp add: s2_def accounted_def outstanding_def sendEmptyCompletion_def)
      qed
    qed
  qed
  have s3: "sent s3 = sent s2" "timer s3 = None" "running s3 = running s2"
    using t2 by (simp_all add: s3_def)
  have "accounted s3 = accounted s2" by (rule accounted_cong) (simp_all add: s3 t2)
  then have a3: "accounted s3 = accounted s" using a1 a2 by simp
  show "accounted (scheduleCompletion s msg params buffer content now) =
           accounted s + filter_mset (\<lambda>i. i \<noteq> None) {#ID msg#}"
  proof (cases dup)
    case True
    then show ?thesis using eq a3 by (simp add: sendEmptyCompletion_def accounted_Send)
  next
    case False
    have "accounted s6 = accounted s3 + filter_mset (\<lambda>i. i \<noteq> None) {#ID msg#}"
      using s3 by (simp add: accounted_def outstanding_def s6_def s5_def s4_def e'_def)
    with False eq a3 show ?thesis by simp
  qed
  show "timer_inv (scheduleCompletion s msg params buffer content now)"
  proof (cases dup)
    case True
    then show ?thesis using eq s3 by (simp add: sendEmptyCompletion_def timer_inv_def)
  next
    case False
    then show ?thesis using eq by (simp add: timer_inv_def s6_def e'_def)
  qed
  show "running (scheduleCompletion s msg params buffer content now) = running s"
    using eq s3 t2 s1 by (simp add: sendEmptyCompletion_def s6_def s5_def s4_def)
qed

lemma mset_map_remove_nth:
  assumes "i < length xs"
  shows "mset (map f (remove_nth i xs)) + {#f (xs ! i)#} = mset (map f xs)"
proof -
  have "xs = take i xs @ xs ! i # drop (Suc i) xs"
    using assms by (rule id_take_nth_drop)
  then have "mset (map f xs) = mset (map f (take i xs @ xs ! i # drop (Suc i) xs))"
    by simp
  then show ?thesis by (simp add: remove_nth_def)
qed

lemma map_update_same:
  assumes "i < length xs" "f y = f (xs ! i)"
  shows "map f (xs[i := y]) = map f xs"
  using assms by (simp add: map_update list_update_same_conv)

lemma checks_cases:
  "executeCompletion_checks cfg s e = (sendEmptyCompletion s (ID (ExMsg e)), False) \<or>
   (\<exists>c. executeCompletion_checks cfg s e = (s\<lparr>calls := calls s @ [c]\<rparr>, True))"
  by (auto simp: executeCompletion_checks_def Let_def split: option.splits)

lemma respond_cases:
  "\<exists>its. executeCompletion_respond s e r = Send s \<lparr>RespID = ID (ExMsg e), Items = its\<rparr>"
  by (auto simp: executeCompletion_respond_def sendEmptyCompletion_def Let_def
           split: backend_result.splits)

lemma accounted_move:
  assumes "sent s' = sent s @ [r]"
    and "mset (outstanding s') + {#RespID r#} = mset (outstanding s)"
  shows "accounted s' = accounted s"
proof -
  have "mset (outstanding s) = mset (outstanding s') + {#RespID r#}"
    using assms(2) by simp
  then show ?thesis by (simp add: accounted_def assms(1))
qed

lemma step_accounted:
  assumes "timer_inv s" "step cfg s ev = Inr s'"
  shows "accounted s' = accounted s + filter_mset (\<lambda>i. i \<noteq> None) (mset (trigger_ids [ev]))
         \<and> timer_inv s'"
proof (cases ev)
  case (Trigger msg now)
  with assms(2) have h: "handleCompletion s msg now = Inr s'" by (simp add: step_def)
  then have "s' = sendEmptyCompletion s (ID msg) \<or>
             (\<exists>params buffer content. s' = scheduleCompletion s msg params buffer content now)"
    by (auto simp: handleCompletion_def split: option.splits sum.splits if_splits)
  then show ?thesis
  proof
    assume "s' = sendEmptyCompletion s (ID msg)"
    then show ?thesis using assms(1) Trigger
      by (simp add: sendEmptyCompletion_def accounted_Send timer_inv_def)
  next
    assume "\<exists>params buffer content. s' = scheduleCompletion s msg params buffer content now"
    then obtain params buffer content
      where "s' = scheduleCompletion s msg params buffer content now" by blast
    then show ?thesis using scheduleCompletion_accounted [OF assms(1)] Trigger by simp
  qed
next
  case (DidChange uri b)
  with assms(2) have s': "s' = s\<lparr>buffers := (buffers s)(uri := b)\<rparr>" by (simp add: step_def)
  have "accounted s' = accounted s" by (rule accounted_cong) (simp_all add: s')
  moreover have "timer_inv s'" using assms(1) by (simp add: s' timer_inv_def)
  ultimately show ?thesis using DidChange by simp
next
  case TimerFires
  show ?thesis
  proof (cases "\<exists>e. timer s = Some (Armed e)")
    case True
    then obtain e where e: "timer s = Some (Armed e)" by blast
    with assms(2) TimerFires
    have s': "s' = s\<lparr>timer := Some Fired, running := running s @ [(e, Started)]\<rparr>"
      by (simp add: step_def)
    have "accounted s' = accounted s"
      by (simp add: s' accounted_def outstanding_def e)
    moreover have "timer_inv s'" by (simp add: s' timer_inv_def)
    ultimately show ?thesis using TimerFires by simp
  next
    case False
    with assms(2) TimerFires have "s' = s"
      by (auto simp: step_def split: option.splits timer.splits)
    then show ?thesis using assms(1) TimerFires by simp
  qed
next
  case (ExecChecks i)
  show ?thesis
  proof (cases "i < length (running s) \<and> snd (running s ! i) = Started")
    case False
    with assms(2) ExecChecks have "s' = s" by (auto simp: step_def)
    then show ?thesis using assms(1) ExecChecks by simp
  next
    case True
    define e where "e = fst (running s ! i)"
    from True have i: "i < length (running s)" by simp
    from checks_cases [of cfg s e] show ?thesis
    proof
      assume c: "executeCompletion_checks cfg s e = (sendEmptyCompletion s (ID (ExMsg e)), False)"
      with assms(2) ExecChecks True
      have s': "s' = (sendEmptyCompletion s (ID (ExMsg e)))\<lparr>running := remove_nth i (running s)\<rparr>"
        by (simp add: step_def Let_def e_def)
      have "mset (map (\<lambda>x. ID (ExMsg (fst x))) (remove_nth i (running s))) + {#ID (ExMsg e)#}
              = mset (map (\<lambda>x. ID (ExMsg (fst x))) (running s))"
        unfolding e_def using i by (rule mset_map_remove_nth)
      then have "mset (outstanding s') + {#ID (ExMsg e)#} = mset (outstanding s)"
        by (simp add: s' outstanding_def sendEmptyCompletion_def)
      then have o: "mset (outstanding s') + {#RespID \<lparr>RespID = ID (ExMsg e), Items = []\<rparr>#}
                      = mset (outstanding s)" by simp
      have "sent s' = sent s @ [\<lparr>RespID = ID (ExMsg e), Items = []\<rparr>]"
        by (simp add: s' sendEmptyCompletion_def)
      then have "accounted s' = accounted s" using o by (rule accounted_move)
      moreover have "timer_inv s'"
        using assms(1) by (simp add: s' timer_inv_def sendEmptyCompletion_def)
      ultimately show ?thesis using ExecChecks by simp
    next
      assume "\<exists>c. executeCompletion_checks cfg s e = (s\<lparr>calls := calls s @ [c]\<rparr>, True)"
      then obtain c where "executeCompletion_checks cfg s e = (s\<lparr>calls := calls s @ [c]\<rparr>, True)"
        by blast
      with assms(2) ExecChecks True
      have s': "s' = s\<lparr>calls := calls s @ [c], running := (running s)[i := (e, Generating)]\<rparr>"
        by (simp add: step_def Let_def e_def)
      have "map (\<lambda>x. ID (ExMsg (fst x))) ((running s)[i := (e, Generating)])
              = map (\<lambda>x. ID (ExMsg (fst x))) (running s)"
        using i by (rule map_update_same) (simp add: e_def)
      then have "accounted s' = accounted s"
        by (simp add: s' accounted_def outstanding_def)
      moreover have "timer_inv s'" using assms(1) by (simp add: s' timer_inv_def)
      ultimately show ?thesis using ExecChecks by simp
    qed
  qed
next
  case (BackendReturns i r)
  show ?thesis
  proof (cases "i < length (running s) \<and> snd (running s ! i) = Generating")
    case False
    with assms(2) BackendReturns have "s' = s" by (auto simp: step_def)
    then show ?thesis using assms(1) BackendReturns by simp
  next
    case True
    define e where "e = fst (running s ! i)"
    from True have i: "i < length (running s)" by simp
    obtain its where "executeCompletion_respond s e r = Send s \<lparr>RespID = ID (ExMsg e), Items = its\<rparr>"
      using respond_cases by blast
    with assms(2) BackendReturns True
    have s': "s' = (Send s \<lparr>RespID = ID (ExMsg e), Items = its\<rparr>)\<lparr>running := remove_nth i (running s)\<rparr>"
      by (simp add: step_def e_def)
    have "mset (map (\<lambda>x. ID (ExMsg (fst x))) (remove_nth i (running s))) + {#ID (ExMsg e)#}
            = mset (map (\<lambda>x. ID (ExMsg (fst x))) (running s))"
      unfolding e_def using i by (rule mset_map_remove_nth)
    then have "mset (outstanding s') + {#ID (ExMsg e)#} = mset (outstanding s)"
      by (simp add: s' outstanding_def)
    then have o: "mset (outstanding s') + {#RespID \<lparr>RespID = ID (ExMsg e), Items = its\<rparr>#}
                    = mset (outstanding s)" by simp
    have "sent s' = sent s @ [\<lparr>RespID = ID (ExMsg e), Items = its\<rparr>]"
      by (simp add: s')
    then have "accounted s' = accounted s" using o by (rule accounted_move)
    moreover have "timer_inv s'" using assms(1) by (simp add: s' timer_inv_def)
    ultimately show ?thesis using BackendReturns by simp
  qed
qed

lemma trigger_ids_Cons: "trigger_ids (ev # evs) = trigger_ids [ev] @ trigger_ids evs"
  by (cases ev) simp_all

lemma run_accounted:
  assumes "timer_inv s" "run cfg s evs = Inr s'"
  shows "accounted s' = accounted s + filter_mset (\<lambda>i. i \<noteq> None) (mset (trigger_ids evs))
         \<and> timer_inv s'"
  using assms
proof (induction evs arbitrary: s)
  case Nil
  then show ?case by simp
next
  case (Cons ev evs)
  from Cons.prems(2) obtain s1 where s1: "step cfg s ev = Inr s1" "run cfg s1 evs = Inr s'"
    by (auto split: sum.splits)
  from step_accounted [OF Cons.prems(1) s1(1)]
  have a: "accounted s1 = accounted s + filter_mset (\<lambda>i. i \<noteq> None) (mset (trigger_ids [ev]))"
    and t: "timer_inv s1" by simp_all
  from Cons.IH [OF t s1(2)] a show ?case
    by (simp add: trigger_ids_Cons [of ev evs])
qed

lemma length_remove_nth: "i < length xs \<Longrightarrow> length (remove_nth i xs) = length xs - 1"
  by (simp add: remove_nth_def)

lemma step_ExecChecks_0:
  "\<exists>s1. step cfg s (ExecChecks 0) = Inr s1 \<and> timer s1 = timer s \<and>
        (running s = [] \<longrightarrow> running s1 = []) \<and>
        (running s \<noteq> [] \<longrightarrow>
           length (running s1) = length (running s) - 1 \<or>
           (length (running s1) = length (running s) \<and> snd (running s1 ! 0) = Generating))"
proof (cases "0 < length (running s) \<and> snd (running s ! 0) = Started")
  case False
  then have "step cfg s (ExecChecks 0) = Inr s" by (auto simp: step_def)
  moreover from False have "running s \<noteq> [] \<Longrightarrow> snd (running s ! 0) = Generating"
    by (cases "snd (running s ! 0)") auto
  ultimately show ?thesis by auto
next
  case True
  define e where "e = fst (running s ! 0)"
  from checks_cases [of cfg s e] show ?thesis
  proof
    assume "executeCompletion_checks cfg s e = (sendEmptyCompletion s (ID (ExMsg e)), False)"
    with True have "step cfg s (ExecChecks 0) =
        Inr ((sendEmptyCompletion s (ID (ExMsg e)))\<lparr>running := remove_nth 0 (running s)\<rparr>)"
      by (simp add: step_def Let_def e_def)
    with True show ?thesis
      by (auto simp: sendEmptyCompletion_def length_remove_nth)
  next
    assume "\<exists>c. executeCompletion_checks cfg s e = (s\<lparr>calls := calls s @ [c]\<rparr>, True)"
    then obtain c where "executeCompletion_checks cfg s e = (s\<lparr>calls := calls s @ [c]\<rparr>, True)"
      by blast
    with True have "step cfg s (ExecChecks 0) =
        Inr (s\<lparr>calls := calls s @ [c], running := (running s)[0 := (e, Generating)]\<rparr>)"
      by (simp add: step_def Let_def e_def)
    with True show ?thesis by auto
  qed
qed

lemma step_BackendReturns_0:
  "\<exists>s2. step cfg s (BackendReturns 0 r) = Inr s2 \<and> timer s2 = timer s \<and>
        length (running s2) \<le> length (running s) \<and>
        (running s \<noteq> [] \<and> snd (running s ! 0) = Generating \<longrightarrow>
           length (running s2) = length (running s) - 1)"
proof (cases "0 < length (running s) \<and> snd (running s ! 0) = Generating")
  case False
  then have "step cfg s (BackendReturns 0 r) = Inr s" by (auto simp: step_def)
  with False show ?thesis by auto
next
  case True
  obtain its where "executeCompletion_respond s (fst (running s ! 0)) r =
      Send s \<lparr>RespID = ID (ExMsg (fst (running s ! 0))), Items = its\<rparr>"
    using respond_cases by blast
  with True have "step cfg s (BackendReturns 0 r) =
      Inr ((Send s \<lparr>RespID = ID (ExMsg (fst (running s ! 0))), Items = its\<rparr>)
             \<lparr>running := remove_nth 0 (running s)\<rparr>)"
    by (simp add: step_def)
  with True show ?thesis by (auto simp: length_remove_nth)
qed

lemma finish_run:
  assumes "length (running s) \<le> k"
  shows "\<exists>s'. run cfg s (finish_events k) = Inr s' \<and> running s' = [] \<and> timer s' = timer s"
  using assms
proof (induction k arbitrary: s)
  case 0
  then show ?case by simp
next
  case (Suc k)
  obtain s1 where s1: "step cfg s (ExecChecks 0) = Inr s1" "timer s1 = timer s"
      "running s = [] \<longrightarrow> running s1 = []"
      "running s \<noteq> [] \<longrightarrow>
           length (running s1) = length (running s) - 1 \<or>
           (length (running s1) = length (running s) \<and> snd (running s1 ! 0) = Generating)"
    using step_ExecChecks_0 [of cfg s] by blast
  obtain s2 where s2: "step cfg s1 (BackendReturns 0 Failure) = Inr s2" "timer s2 = timer s1"
      "length (running s2) \<le> length (running s1)"
      "running s1 \<noteq> [] \<and> snd (running s1 ! 0) = Generating \<longrightarrow>
           length (running s2) = length (running s1) - 1"
    using step_BackendReturns_0 [of cfg s1 Failure] by blast
  have "length (running s2) \<le> k"
  proof (cases "running s = []")
    case True
    with s1(3) s2(3) show ?thesis by simp
  next
    case False
    with s1(4) have "length (running s1) = length (running s) - 1 \<or>
           (length (running s1) = length (running s) \<and> snd (running s1 ! 0) = Generating)"
      by simp
    then show ?thesis
    proof
      assume "length (running s1) = length (running s) - 1"
      with s2(3) Suc.prems show ?thesis by simp
    next
      assume a: "length (running s1) = length (running s) \<and> snd (running s1 ! 0) = Generating"
      with False have "running s1 \<noteq> []" by auto
      with a s2(4) have "length (running s2) = length (running s1) - 1" by simp
      with a Suc.prems show ?thesis by simp
    qed
  qed
  from Suc.IH [OF this] obtain s' where
    "run cfg s2 (finish_events k) = Inr s'" "running s' = []" "timer s' = timer s2"
    by blast
  with s1 s2 show ?case by simp
qed

lemma drain:
  "\<exists>s'. run cfg s (TimerFires # finish_events (Suc (length (running s)))) = Inr s' \<and>
        outstanding s' = []"
proof -
  have "\<exists>s1. step cfg s TimerFires = Inr s1 \<and> (\<forall>e. timer s1 \<noteq> Some (Armed e)) \<and>
      length (running s1) \<le> Suc (length (running s))"
  proof (cases "timer s")
    case None
    then show ?thesis by (simp add: step_def)
  next
    case (Some t)
    then show ?thesis by (cases t) (simp_all add: step_def)
  qed
  then obtain s1 where s1: "step cfg s TimerFires = Inr s1" "\<forall>e. timer s1 \<noteq> Some (Armed e)"
      "length (running s1) \<le> Suc (length (running s))"
    by blast
  from finish_run [OF s1(3), of cfg] obtain s' where
    s': "run cfg s1 (finish_events (Suc (length (running s)))) = Inr s'" "running s' = []"
        "timer s' = timer s1"
    by blast
  have "outstanding s' = []"
    using s'(2,3) s1(2) by (auto simp: outstanding_def split: option.splits timer.splits)
  with s1(1) s'(1) show ?thesis by simp
qed

lemma trigger_ids_finish: "trigger_ids (finish_events k) = []"
  by (induction k) simp_all

text \<open>
  C1. For every sequence of events in which no trigger makes the text-window
  extractor panic, and for every identifier \<open>m\<close>: the number of responses sent
  with \<open>m\<close> plus the number of messages with \<open>m\<close> still waiting (behind the armed
  timer or in a running execution) is the number of triggers received with \<open>m\<close>,
  so no identified message is answered twice. And the waiting ones can always be
  served: once the timer has fired and the running executions have made their
  checks and got their backend results, nothing is waiting and every identifier has
  exactly as many responses as triggers.
\<close>

theorem one_response_per_identified_trigger:
  assumes "run cfg (init_state bufs) evs = Inr s"
  shows "(\<forall>m. count_list (map RespID (sent s)) (Some m) + count_list (outstanding s) (Some m)
                = count_list (trigger_ids evs) (Some m)) \<and>
         (\<exists>s'. run cfg s (TimerFires # finish_events (Suc (length (running s)))) = Inr s' \<and>
                outstanding s' = [] \<and>
                (\<forall>m. count_list (map RespID (sent s')) (Some m)
                        = count_list (trigger_ids evs) (Some m)))"
proof -
  have i0: "timer_inv (init_state bufs)" by (simp add: timer_inv_def init_state_def)
  have a0: "accounted (init_state bufs) = {#}"
    by (simp add: accounted_def outstanding_def init_state_def)
  have acc: "accounted s = filter_mset (\<lambda>i. i \<noteq> None) (mset (trigger_ids evs))"
    and inv: "timer_inv s"
    using run_accounted [OF i0 assms] a0 by simp_all
  have cnt: "count_list (map RespID (sent t)) (Some m) + count_list (outstanding t) (Some m)
               = count (accounted t) (Some m)" for t m
    by (simp add: accounted_def count_mset mset_map [symmetric] del: mset_map)
  have first: "\<forall>m. count_list (map RespID (sent s)) (Some m) + count_list (outstanding s) (Some m)
                = count_list (trigger_ids evs) (Some m)"
    by (simp add: cnt acc count_mset)
  obtain s' where s': "run cfg s (TimerFires # finish_events (Suc (length (running s)))) = Inr s'"
      "outstanding s' = []"
    using drain [of cfg s] by blast
  from run_accounted [OF inv s'(1)]
  have "accounted s' = accounted s"
    by (simp add: trigger_ids_finish)
  then have "\<forall>m. count_list (map RespID (sent s')) (Some m)
                        = count_list (trigger_ids evs) (Some m)"
    using cnt [of s'] s'(2) acc by (simp add: count_mset)
  with first s' show ?thesis by blast
qed

theorem one_response_per_identified_trigger_witness:
  "run example_cfg (init_state example_bufs)
     [Trigger (example_msg (Some 1) 2) 0, Trigger (example_msg (Some 2) 3) 100, TimerFires,
      ExecChecks 0, BackendReturns 0 (Hints [''foo()''])]
     = Inr (projr (run example_cfg (init_state example_bufs)
     [Trigger (example_msg (Some 1) 2) 0, Trigger (example_msg (Some 2) 3) 100, TimerFires,
      ExecChecks 0, BackendReturns 0 (Hints [''foo()''])])) \<and>
   map RespID (sent (projr (run example_cfg (init_state example_bufs)
     [Trigger (example_msg (Some 1) 2) 0, Trigger (example_msg (Some 2) 3) 100, TimerFires,
      ExecChecks 0, BackendReturns 0 (Hints [''foo()''])]))) = [Some 1, Some 2] \<and>
   count_list (map RespID (sent (projr (run example_cfg (init_state example_bufs)
     [Trigger (example_msg (Some 1) 2) 0, Trigger (example_msg (Some 2) 3) 100, TimerFires,
      ExecChecks 0, BackendReturns 0 (Hints [''foo()''])])))) (Some 1) +
   count_list (outstanding (projr (run example_cfg (init_state example_bufs)
     [Trigger (example_msg (Some 1) 2) 0, Trigger (example_msg (Some 2) 3) 100, TimerFires,
      ExecChecks 0, BackendReturns 0 (Hints [''foo()''])]))) (Some 1)
     = count_list (trigger_ids
     [Trigger (example_msg (Some 1) 2) 0, Trigger (example_msg (Some 2) 3) 100, TimerFires,
      ExecChecks 0, BackendReturns 0 (Hints [''foo()''])]) (Some 1)"
proof -
  define evs where "evs = [Trigger (example_msg (Some 1) 2) 0,
      Trigger (example_msg (Some 2) 3) 100, TimerFires,
      ExecChecks 0, BackendReturns 0 (Hints [''foo()''])]"
  define s where "s = projr (run example_cfg (init_state example_bufs) evs)"
  have "\<not> isl (run example_cfg (init_state example_bufs) evs)"
    unfolding evs_def by code_simp
  then have r: "run example_cfg (init_state example_bufs) evs = Inr s"
    unfolding s_def by simp
  have m: "map RespID (sent s) = [Some 1, Some 2]"
    unfolding s_def evs_def by code_simp
  from one_response_per_identified_trigger [OF r]
  have "count_list (map RespID (sent s)) (Some 1) + count_list (outstanding s) (Some 1)
         = count_list (trigger_ids evs) (Some 1)"
    by blast
  with r m show ?thesis
    unfolding evs_def [symmetric] s_def [symmetric] by blast
qed

text \<open>
  As the claim has it, every trigger message gets exactly one response. A message
  without identifier that is superseded while its timer is armed gets none: the
  supersession answers the pending message only when \<^verbatim>\<open>pendingMsgID\<close> is not nil.
  Two triggers arrive, everything has run, and one response has been sent.
\<close>

theorem unidentified_trigger_unanswered_counterexample:
  "\<not> isl (run example_cfg (init_state example_bufs)
     [Trigger (example_msg None 2) 0, Trigger (example_msg (Some 2) 3) 100, TimerFires,
      ExecChecks 0, BackendReturns 0 (Hints [''foo()''])]) \<and>
   trigger_ids
     [Trigger (example_msg None 2) 0, Trigger (example_msg (Some 2) 3) 100, TimerFires,
      ExecChecks 0, BackendReturns 0 (Hints [''foo()''])] = [None, Some 2] \<and>
   map RespID (sent (projr (run example_cfg (init_state example_bufs)
     [Trigger (example_msg None 2) 0, Trigger (example_msg (Some 2) 3) 100, TimerFires,
      ExecChecks 0, BackendReturns 0 (Hints [''foo()''])]))) = [Some 2] \<and>
   outstanding (projr (run example_cfg (init_state example_bufs)
     [Trigger (example_msg None 2) 0, Trigger (example_msg (Some 2) 3) 100, TimerFires,
      ExecChecks 0, BackendReturns 0 (Hints [''foo()''])])) = []"
  by code_simp

text \<open>
  A trigger whose column is negative makes \<^verbatim>\<open>GetContent\<close> panic in the registered
  function, outside the \<^verbatim>\<open>recover\<close> of \<^verbatim>\<open>executeCompletion\<close>: the handler sends
  nothing for it.
\<close>

lemma negative_column_trigger_panics:
  "isl (run example_cfg (init_state example_bufs) [Trigger (example_msg (Some 1) (- 1)) 0]) \<and>
   projl (run example_cfg (init_state example_bufs) [Trigger (example_msg (Some 1) (- 1)) 0])
     = SliceBoundsOutOfRange"
  by code_simp

section \<open>A request superseded during generation\<close>

text \<open>
  C2. The claim is that a request whose identity is no longer the current one
  never sends a list that is not empty. \<^verbatim>\<open>executeCompletion\<close> compares the identity
  and looks at its context once, before the backend call; what the call returns is
  sent without another look. Request 1 passes its checks and starts generating,
  request 2 arrives (the counter becomes 2 and the context of request 1 is
  cancelled), then the backend call of request 1 returns a hint, and request 1 is
  answered with an item. The parallel provider does return like that when one
  attempt had finished before the others were cancelled: its error is nil.
\<close>

text \<open>
  What the checks do guarantee: a request that is no longer current, or whose
  context is cancelled, when its checks run is answered with an empty list and
  never reaches the backend.
\<close>

lemma stale_or_cancelled_answered_empty:
  assumes "i < length (running s)"
    and "running s ! i = (e, Started)"
    and "requestID s \<noteq> ExReqID e \<or> ExCtx e \<in> set (cancelled s)"
  shows "step cfg s (ExecChecks i) =
           Inr (s\<lparr>running := remove_nth i (running s),
                   sent := sent s @ [\<lparr>RespID = ID (ExMsg e), Items = []\<rparr>]\<rparr>)"
proof -
  have "executeCompletion_checks cfg s e =
          (s\<lparr>sent := sent s @ [\<lparr>RespID = ID (ExMsg e), Items = []\<rparr>]\<rparr>, False)"
    using assms(3)
    by (auto simp: executeCompletion_checks_def sendEmptyCompletion_def Send_def
             split: option.splits)
  with assms(1,2) show ?thesis
    by (simp add: step_def Let_def)
qed

theorem superseded_request_answers_nonempty:
  "\<not> isl (run example_cfg (init_state example_bufs)
     [Trigger (example_msg (Some 1) 2) 0, TimerFires, ExecChecks 0,
      Trigger (example_msg (Some 2) 3) 100]) \<and>
   requestID (projr (run example_cfg (init_state example_bufs)
     [Trigger (example_msg (Some 1) 2) 0, TimerFires, ExecChecks 0,
      Trigger (example_msg (Some 2) 3) 100])) = 2 \<and>
   map (\<lambda>x. (ID (ExMsg (fst x)), ExReqID (fst x), ExCtx (fst x), snd x))
     (running (projr (run example_cfg (init_state example_bufs)
     [Trigger (example_msg (Some 1) 2) 0, TimerFires, ExecChecks 0,
      Trigger (example_msg (Some 2) 3) 100]))) = [(Some 1, 1, 0, Generating)] \<and>
   cancelled (projr (run example_cfg (init_state example_bufs)
     [Trigger (example_msg (Some 1) 2) 0, TimerFires, ExecChecks 0,
      Trigger (example_msg (Some 2) 3) 100])) = [0] \<and>
   Completion (\<lambda>idx. if idx = 0 then ApiResponse ''foo()'' else RequestError) [0, 1, 2]
     \<lparr>ReqContentBefore = ''ab'', ReqContentAfter = ''cd''\<rparr> 3 = ([''foo()''], None) \<and>
   \<not> isl (run example_cfg (init_state example_bufs)
     [Trigger (example_msg (Some 1) 2) 0, TimerFires, ExecChecks 0,
      Trigger (example_msg (Some 2) 3) 100, BackendReturns 0 (Hints [''foo()''])]) \<and>
   requestID (projr (run example_cfg (init_state example_bufs)
     [Trigger (example_msg (Some 1) 2) 0, TimerFires, ExecChecks 0,
      Trigger (example_msg (Some 2) 3) 100, BackendReturns 0 (Hints [''foo()''])])) = 2 \<and>
   map (\<lambda>r. (RespID r, map Detail (Items r)))
     (sent (projr (run example_cfg (init_state example_bufs)
     [Trigger (example_msg (Some 1) 2) 0, TimerFires, ExecChecks 0,
      Trigger (example_msg (Some 2) 3) 100, BackendReturns 0 (Hints [''foo()''])])))
     = [(Some 1, [''foo()''])]"
  by code_simp

section \<open>The candidate cleaner applied twice\<close>


































text \<open>
  The other steps strip again as well: a backquote laid bare by cutting at a model
  token, a second chat lead-in behind the first, a line feed that becomes the first
  byte once the blanks before it are gone.
\<close>

lemma cleanCompletion_not_idempotent_backquote:
  "cleanCompletion ''ab`<|x'' [] [] = ''ab`'' \<and> cleanCompletion ''ab`'' [] [] = ''ab''"
  by code_simp

lemma cleanCompletion_not_idempotent_lead_in:
  "cleanCompletion ''code:output: ab'' [] [] = ''output: ab'' \<and>
   cleanCompletion ''output: ab'' [] [] = ''ab''"
  by code_simp

lemma cleanCompletion_not_idempotent_newline:
  "cleanCompletion '' \<newline>ab'' [] [] = ''\<newline>ab'' \<and>
   cleanCompletion ''\<newline>ab'' [] [] = ''ab''"
  by code_simp

end
